theory Spec2Isabelle
  imports Main "HOL-Library.Word" "HOL-Library.Log_Nat"
begin

unbundle bit_operations_syntax

section \<open>Codec: the LZ77 variant of lz77.go\<close>

type_synonym byte = "8 word"

text \<open>
  The inner loop of \<open>getLargestPrefix\<close>: \<open>for j, val := range pix[idx : idx+34]\<close>.
  The slice is the list argument, \<open>j\<close> counts its positions. The candidate is the pair
  \<open>(candidateIdx, candidateSize)\<close>, a \<open>uint16\<close> and a \<open>uint8\<close>. The result flag is
  \<open>True\<close> when the loop leaves the whole function through \<open>return\<close>, \<open>False\<close> when it
  ends or meets \<open>break\<close>.
\<close>

fun getLargestPrefix_inner ::
  "byte list \<Rightarrow> nat \<Rightarrow> nat \<Rightarrow> byte list \<Rightarrow> 16 word \<times> 8 word \<Rightarrow> bool \<times> 16 word \<times> 8 word" where
  "getLargestPrefix_inner pix i j [] c = (False, c)"
| "getLargestPrefix_inner pix i j (val # vals) (candidateIdx, candidateSize) =
     (if i + j \<ge> length pix then (False, candidateIdx, candidateSize)
      else if val = pix ! (i + j) then
        (let c' = (if j > unat candidateSize then (word_of_nat i, word_of_nat j)
                   else (candidateIdx, candidateSize))
         in if snd c' = 34 then (True, c')
            else getLargestPrefix_inner pix i (j + 1) vals c')
      else (False, candidateIdx, candidateSize))"

text \<open>
  The outer loop: \<open>for i := int(idx - 34); i >= 0 && (idx-i < 128); i--\<close>. The loop
  variable is a signed integer, as in the source. \<open>None\<close> is the index-out-of-range panic
  of \<open>pix[i] == pix[idx]\<close>. The position \<open>idx\<close> is a natural number: \<open>compress\<close> passes
  no negative position, and with one the loop would not be entered.
\<close>

function getLargestPrefix_outer ::
  "byte list \<Rightarrow> nat \<Rightarrow> int \<Rightarrow> 16 word \<times> 8 word \<Rightarrow> (bool \<times> 16 word \<times> 8 word) option" where
  "getLargestPrefix_outer pix idx i c =
     (if i \<ge> 0 \<and> int idx - i < 128 then
        (if nat i \<ge> length pix \<or> idx \<ge> length pix then None
         else if pix ! nat i = pix ! idx then
           (if idx + 34 \<ge> length pix then Some (False, c)
            else (case getLargestPrefix_inner pix (nat i) 0 (take 34 (drop idx pix)) c of
                    (True, c') \<Rightarrow> Some (True, c')
                  | (False, c') \<Rightarrow> getLargestPrefix_outer pix idx (i - 1) c'))
         else getLargestPrefix_outer pix idx (i - 1) c)
      else Some (False, c))"
  by pat_completeness auto
termination
  by (relation "measure (\<lambda>(pix, idx, i, c). nat (i + 1))") auto

declare getLargestPrefix_outer.simps [simp del]

definition getLargestPrefix :: "byte list \<Rightarrow> nat \<Rightarrow> (16 word \<times> 8 word) option" where
  "getLargestPrefix pix idx =
     (case getLargestPrefix_outer pix idx (int idx - 34) (0, 0) of
        None \<Rightarrow> None
      | Some (True, c) \<Rightarrow> Some c
      | Some (False, candidateIdx, candidateSize) \<Rightarrow>
          if candidateSize > 2 then Some (candidateIdx, candidateSize) else Some (0, 0))"

text \<open>
  \<open>compress\<close>: the loop \<open>for i := 0; i < len(pix); { ... }\<close> with the output \<open>val\<close>
  as accumulator.
\<close>

function compress_loop :: "byte list \<Rightarrow> nat \<Rightarrow> byte list \<Rightarrow> byte list option" where
  "compress_loop pix i val =
     (if i < length pix then
        (case getLargestPrefix pix i of
           None \<Rightarrow> None
         | Some (idx, sz) \<Rightarrow>
             if sz > 2 then
               (let encoding0 = push_bit 2 (sz - 3);
                    encodedOffset = (word_of_int (int i - uint idx) :: 16 word) - 1;
                    encoding0' = encoding0 OR ucast (drop_bit 8 (encodedOffset AND 0x0300));
                    encoding1 = ucast (encodedOffset AND 0x00FF)
                in compress_loop pix (i + unat sz) (val @ [encoding0', encoding1]))
             else
               (let left = length pix - i in
                if left \<ge> 128 then
                  compress_loop pix (i + 128) ((val @ [0xFF]) @ take 128 (drop i pix))
                else
                  compress_loop pix (i + left)
                    ((val @ [0x80 OR word_of_nat (left - 1)]) @ take left (drop i pix))))
      else Some val)"
  by pat_completeness auto
termination
  by (relation "measure (\<lambda>(pix, i, val). length pix - i)") (auto simp: word_less_nat_alt)

declare compress_loop.simps [simp del]

definition compress :: "byte list \<Rightarrow> byte list option" where
  "compress pix = compress_loop pix 0 []"


subsection \<open>The token grammar, read by a decoder\<close>

text \<open>
  The decoder is not part of the driver: it is the reader of the device, described by
  the format text that \<open>compress\<close> quotes. A first byte with the high bit clear starts a
  two-byte back-reference: bits 6 to 2 hold the length minus 3, the bottom two bits and
  the next byte hold the backward distance minus 1, and that many bytes are copied, one
  at a time, from the output decoded so far. A first byte with the high bit set starts a
  literal run: its low seven bits hold the run length minus 1 and the raw bytes follow.
  \<open>None\<close> is a malformed stream (a truncated token, or a distance that reaches before
  the start of the output).
\<close>

fun copy_back :: "nat \<Rightarrow> nat \<Rightarrow> byte list \<Rightarrow> byte list" where
  "copy_back 0 distance out = out"
| "copy_back (Suc n) distance out = copy_back n distance (out @ [out ! (length out - distance)])"

fun decode_tokens :: "byte list \<Rightarrow> byte list \<Rightarrow> byte list option" where
  "decode_tokens out [] = Some out"
| "decode_tokens out (b # rest) =
     (if bit b 7 then
        (let n = unat (b AND 0x7F) + 1 in
         if length rest < n then None
         else decode_tokens (out @ take n rest) (drop n rest))
      else
        (case rest of
           [] \<Rightarrow> None
         | b2 # rest' \<Rightarrow>
             (let len = unat (drop_bit 2 b AND 0x1F) + 3;
                  distance = unat (b AND 3) * 256 + unat b2 + 1
              in if distance > length out then None
                 else decode_tokens (copy_back len distance out) rest')))"

text \<open>
  The window of the specification, as a predicate: some position at most 128 bytes back
  starts a run of at least 3 (and at most 34) bytes equal to the bytes at \<open>idx\<close>.
\<close>

definition match_in_window :: "byte list \<Rightarrow> nat \<Rightarrow> bool" where
  "match_in_window pix idx =
     (\<exists>m \<in> set [idx - 128 ..< idx]. \<exists>n \<in> set [3 ..< 35].
        idx + n \<le> length pix \<and> take n (drop m pix) = take n (drop idx pix))"

text \<open>
  The part of that window which the loop of \<open>getLargestPrefix\<close> searches: \<open>i\<close> runs
  from \<open>idx - 34\<close> down while \<open>idx - i < 128\<close>, so the positions \<open>m\<close> from 34 to 127
  bytes back, and the guard \<open>idx+34 >= len(pix)\<close> leaves the loop unless more than 34
  bytes follow \<open>idx\<close>. \<open>searched_match pix idx n\<close>: one of these positions starts \<open>n\<close>
  bytes equal to the \<open>n\<close> bytes at \<open>idx\<close>.
\<close>

definition searched_match :: "byte list \<Rightarrow> nat \<Rightarrow> nat \<Rightarrow> bool" where
  "searched_match pix idx n =
     (idx + 34 < length pix \<and>
      (\<exists>m \<in> set [idx - 127 ..< idx - 33]. take n (drop m pix) = take n (drop idx pix)))"

text \<open>
  The loop invariant of \<open>getLargestPrefix\<close>: the candidate is still the initial
  \<open>(0, 0)\<close>, or it records a position \<open>m\<close> between 34 and 127 bytes back whose bytes
  \<open>0 .. candidateSize\<close> equal those at \<open>idx\<close>.
\<close>

definition cand_ok :: "byte list \<Rightarrow> nat \<Rightarrow> 16 word \<times> 8 word \<Rightarrow> bool" where
  "cand_ok pix idx c =
     (c = (0, 0) \<or>
      (1 \<le> unat (snd c) \<and> unat (snd c) \<le> 33 \<and> idx + 34 < length pix \<and>
       (\<exists>m. fst c = word_of_nat m \<and> m + 34 \<le> idx \<and> idx < m + 128 \<and>
            (\<forall>k \<le> unat (snd c). pix ! (m + k) = pix ! (idx + k)))))"

section \<open>ProtocolClient: drawctl.go\<close>

subsection \<open>Geometry and integers\<close>

text \<open>
  Go's \<open>int\<close> is taken with 64 bits, in two's complement. Its values are held in the
  type \<open>int\<close>, and \<open>int64\<close> brings the exact result of an operation back into the range
  from \<open>-2^63\<close> to \<open>2^63 - 1\<close>, as \<open>+\<close>, \<open>-\<close> and \<open>*\<close> of Go do without a panic. A sum or
  product of several operands is wrapped once, at the end: wrapping after every
  operation gives the same value. Values that come in from outside (a coordinate, the
  transfer unit) are in the range. The conversion \<open>uint32(x)\<close> is \<open>word_of_int\<close>, which
  truncates.
\<close>

definition int64 :: "int \<Rightarrow> int" where
  "int64 x = (x + 2 ^ 63) mod 2 ^ 64 - 2 ^ 63"

text \<open>\<open>image.Point\<close> and \<open>image.Rectangle\<close>; \<open>Size\<close> is \<open>Max.Sub(Min)\<close>.\<close>

record Point =
  X :: int
  Y :: int

record Rectangle =
  Min_pt :: Point
  Max_pt :: Point

definition ZP :: Point where
  "ZP = \<lparr>X = 0, Y = 0\<rparr>"

definition Size :: "Rectangle \<Rightarrow> Point" where
  "Size r = \<lparr>X = int64 (X (Max_pt r) - X (Min_pt r)), Y = int64 (Y (Max_pt r) - Y (Min_pt r))\<rparr>"

text \<open>
  Go's integer division truncates toward zero; division by zero panics (checked by the
  callers), and the most negative value divided by \<open>-1\<close> wraps to itself.
\<close>

definition quo :: "int \<Rightarrow> int \<Rightarrow> int" where
  "quo a b = int64 (sgn a * sgn b * (\<bar>a\<bar> div \<bar>b\<bar>))"

text \<open>
  \<open>make([]byte, n)\<close> is \<open>n\<close> zero bytes and panics for a negative \<open>n\<close>, which the callers
  test. Memory is not bounded here: every length from 0 on is allocated.
\<close>

text \<open>
  \<open>binary.LittleEndian.PutUint32(b[off:], v)\<close>: the four bytes of \<open>v\<close>, least
  significant first, stored at \<open>off .. off+3\<close>. It panics on a buffer without room
  for the field; the callers whose buffer has a computed length test for that
  themselves, all others allocate a constant length with room.
\<close>

definition PutUint32 :: "byte list \<Rightarrow> nat \<Rightarrow> 32 word \<Rightarrow> byte list" where
  "PutUint32 b off v =
     b[off := ucast v, off + 1 := ucast (drop_bit 8 v),
       off + 2 := ucast (drop_bit 16 v), off + 3 := ucast (drop_bit 24 v)]"

text \<open>The built-in \<open>copy(dst[off:], src)\<close>: as many bytes as both sides hold.\<close>

definition copy_at :: "byte list \<Rightarrow> nat \<Rightarrow> byte list \<Rightarrow> byte list" where
  "copy_at dst off src =
     (let n = min (length dst - off) (length src)
      in take off dst @ take n src @ drop (off + n) dst)"

text \<open>
  A slice expression \<open>s[lo:hi]\<close>; \<open>None\<close> is the run-time panic for bounds out of
  range (the capacity of a slice is taken to be its length).
\<close>

definition slice :: "'a list \<Rightarrow> int \<Rightarrow> int \<Rightarrow> 'a list option" where
  "slice s lo hi =
     (if 0 \<le> lo \<and> lo \<le> hi \<and> hi \<le> int (length s)
      then Some (take (nat (hi - lo)) (drop (nat lo) s)) else None)"

subsection \<open>The controller and its data channel\<close>

text \<open>
  What one \<open>Read\<close> on the data channel delivers: the bytes the device hands over and the
  error, if any. \<open>Read(p)\<close> stores at most \<open>len(p)\<close> of the bytes at the start of \<open>p\<close>.
  The channel is the environment of the driver, so any sequence of such results is
  possible.
\<close>

datatype read_result = ReadResult (bytes: "byte list") (err: "string option")

text \<open>
  \<open>DrawCtrler\<close>. The data channel is modelled by its two directions: \<open>data_written\<close> is
  the list of messages written so far, in order; \<open>data_reads\<close> is what the device will
  answer to the successive reads. When \<open>data_reads\<close> is empty a read never returns. The
  control handle and the mutex play no part in the operations modelled.
\<close>

record DrawCtrler =
  N :: int
  iounitSize :: int
  nextId :: "32 word"
  data_written :: "byte list list"
  data_reads :: "read_result list"

text \<open>
  The controller that \<open>NewDrawCtrler\<close> returns on success: \<open>n\<close> is the connection
  index parsed from the control string, \<open>iounit\<close> the size read from the process's file
  table. The counter starts at 2.
\<close>

definition NewDrawCtrler :: "int \<Rightarrow> int \<Rightarrow> read_result list \<Rightarrow> DrawCtrler" where
  "NewDrawCtrler n iounit reads =
     \<lparr>N = n, iounitSize = iounit, nextId = 2, data_written = [], data_reads = reads\<rparr>"

text \<open>\<open>sendMessage\<close>: one write of the command byte followed by the arguments.\<close>

definition sendMessage :: "DrawCtrler \<Rightarrow> byte \<Rightarrow> byte list \<Rightarrow> DrawCtrler" where
  "sendMessage d cmd val = d\<lparr>data_written := data_written d @ [cmd # val]\<rparr>"

text \<open>
  \<open>color.Color\<close> through its method \<open>RGBA()\<close>: four \<open>uint32\<close> values
  \<open>(r, g, b, a)\<close>.
\<close>

record Color =
  red :: "32 word"
  green :: "32 word"
  blue :: "32 word"
  alpha :: "32 word"

text \<open>\<open>AllocBuffer\<close>; the command byte \<open>'b'\<close> is 98. It returns the new id and the controller.\<close>

definition AllocBuffer ::
  "DrawCtrler \<Rightarrow> byte \<Rightarrow> bool \<Rightarrow> Rectangle \<Rightarrow> Rectangle \<Rightarrow> Color \<Rightarrow> 32 word \<times> DrawCtrler" where
  "AllocBuffer d refresh repl r clipr color =
     (let msg = replicate 50 0;
          d = d\<lparr>nextId := nextId d + 1\<rparr>;
          newId = nextId d;
          msg = PutUint32 msg 0 newId;
          msg = msg[8 := refresh];
          msg = msg[9 := 8];
          msg = msg[10 := 24];
          msg = msg[11 := 40];
          msg = msg[12 := 72];
          msg = (if repl = True then msg[13 := 1] else msg);
          msg = PutUint32 msg 14 (word_of_int (X (Min_pt r)));
          msg = PutUint32 msg 18 (word_of_int (Y (Min_pt r)));
          msg = PutUint32 msg 22 (word_of_int (X (Max_pt r)));
          msg = PutUint32 msg 26 (word_of_int (Y (Max_pt r)));
          msg = PutUint32 msg 30 (word_of_int (X (Min_pt clipr)));
          msg = PutUint32 msg 34 (word_of_int (Y (Min_pt clipr)));
          msg = PutUint32 msg 38 (word_of_int (X (Max_pt clipr)));
          msg = PutUint32 msg 42 (word_of_int (Y (Max_pt clipr)));
          msg = msg[46 := ucast (drop_bit 8 (alpha color))];
          msg = msg[47 := ucast (drop_bit 8 (blue color))];
          msg = msg[48 := ucast (drop_bit 8 (green color))];
          msg = msg[49 := ucast (drop_bit 8 (red color))];
          d = sendMessage d 98 msg
      in (newId, d))"

text \<open>\<open>FreeID\<close>; the command byte \<open>'f'\<close> is 102.\<close>

definition FreeID :: "DrawCtrler \<Rightarrow> 32 word \<Rightarrow> DrawCtrler" where
  "FreeID d ident =
     (let msg = replicate 4 0;
          msg = PutUint32 msg 0 ident
      in sendMessage d 102 msg)"

text \<open>
  \<open>draw.Op\<close> is an integer type with \<open>Over = 0\<close> and \<open>Src = 1\<close>. \<open>setOp\<close> sends
  \<open>'O'\<close> (79) with 10 for \<open>Src\<close> and 11 for everything else.
\<close>

definition Over :: int where "Over = 0"
definition Src :: int where "Src = 1"

definition setOp :: "DrawCtrler \<Rightarrow> int \<Rightarrow> DrawCtrler" where
  "setOp d op =
     (let msg = replicate 1 0;
          msg = (if op = Src then msg[0 := 10] else msg[0 := 11])
      in sendMessage d 79 msg)"

text \<open>\<open>Draw\<close>: \<open>setOp\<close>, then the \<open>'d'\<close> (100) message of 44 bytes.\<close>

definition Draw ::
  "DrawCtrler \<Rightarrow> 32 word \<Rightarrow> 32 word \<Rightarrow> 32 word \<Rightarrow> Rectangle \<Rightarrow> Point \<Rightarrow> Point \<Rightarrow> int \<Rightarrow> DrawCtrler" where
  "Draw d dstid srcid maskid r srcp maskp op =
     (let d = setOp d op;
          msg = replicate 44 0;
          msg = PutUint32 msg 0 dstid;
          msg = PutUint32 msg 4 srcid;
          msg = PutUint32 msg 8 maskid;
          msg = PutUint32 msg 12 (word_of_int (X (Min_pt r)));
          msg = PutUint32 msg 16 (word_of_int (Y (Min_pt r)));
          msg = PutUint32 msg 20 (word_of_int (X (Max_pt r)));
          msg = PutUint32 msg 24 (word_of_int (Y (Max_pt r)));
          msg = PutUint32 msg 28 (word_of_int (X srcp));
          msg = PutUint32 msg 32 (word_of_int (Y srcp));
          msg = PutUint32 msg 36 (word_of_int (X maskp));
          msg = PutUint32 msg 40 (word_of_int (Y maskp))
      in sendMessage d 100 msg)"

subsection \<open>Message layouts and sessions, for the statements\<close>

text \<open>A 32-bit field in little-endian order, and the four coordinates of a rectangle.\<close>

definition le32 :: "32 word \<Rightarrow> byte list" where
  "le32 v = [ucast v, ucast (drop_bit 8 v), ucast (drop_bit 16 v), ucast (drop_bit 24 v)]"

definition rect_bytes :: "Rectangle \<Rightarrow> byte list" where
  "rect_bytes r =
     le32 (word_of_int (X (Min_pt r))) @ le32 (word_of_int (Y (Min_pt r))) @
     le32 (word_of_int (X (Max_pt r))) @ le32 (word_of_int (Y (Max_pt r)))"

text \<open>The colour field: the high bytes of alpha, blue, green and red, in this order.\<close>

definition color_bytes :: "Color \<Rightarrow> byte list" where
  "color_bytes c =
     [ucast (drop_bit 8 (alpha c)), ucast (drop_bit 8 (blue c)),
      ucast (drop_bit 8 (green c)), ucast (drop_bit 8 (red c))]"

text \<open>
  The payload of the \<open>'b'\<close> message as the table of wire commands gives it:
  \<open>newId(4) refresh(1) channelFormat(4) repl(1) bounds(4\<times>4) clip(4\<times>4) color(4)\<close>.
\<close>

definition b_payload_table ::
  "32 word \<Rightarrow> byte \<Rightarrow> bool \<Rightarrow> Rectangle \<Rightarrow> Rectangle \<Rightarrow> Color \<Rightarrow> byte list" where
  "b_payload_table newId refresh repl r clipr color =
     le32 newId @ [refresh] @ [8, 24, 40, 72] @ [if repl then 1 else 0] @
     rect_bytes r @ rect_bytes clipr @ color_bytes color"

text \<open>
  The payload with the four bytes of the screen id, always zero, between the id and the
  refresh byte: \<open>id[4] screenid[4] refresh[1] chan[4] repl[1] r[4*4] clipr[4*4] color[4]\<close>,
  the form in the comment of \<open>AllocBuffer\<close>.
\<close>

definition b_payload ::
  "32 word \<Rightarrow> byte \<Rightarrow> bool \<Rightarrow> Rectangle \<Rightarrow> Rectangle \<Rightarrow> Color \<Rightarrow> byte list" where
  "b_payload newId refresh repl r clipr color =
     le32 newId @ [0, 0, 0, 0] @ [refresh] @ [8, 24, 40, 72] @ [if repl then 1 else 0] @
     rect_bytes r @ rect_bytes clipr @ color_bytes color"

text \<open>
  A session as far as the allocator sees it: a sequence of \<open>AllocBuffer\<close> and \<open>FreeID\<close>
  calls on one controller. \<open>session\<close> runs the calls in order and collects the ids that
  the \<open>AllocBuffer\<close> calls return.
\<close>

datatype alloc_call =
  AllocBufferCall byte bool Rectangle Rectangle Color
| FreeIDCall "32 word"

fun is_alloc :: "alloc_call \<Rightarrow> bool" where
  "is_alloc (AllocBufferCall refresh repl r clipr color) = True"
| "is_alloc (FreeIDCall ident) = False"

fun session :: "alloc_call list \<Rightarrow> DrawCtrler \<Rightarrow> 32 word list \<times> DrawCtrler" where
  "session [] d = ([], d)"
| "session (AllocBufferCall refresh repl r clipr color # calls) d =
     (case AllocBuffer d refresh repl r clipr color of
        (newId, d') \<Rightarrow> (case session calls d' of (ids, d'') \<Rightarrow> (newId # ids, d'')))"
| "session (FreeIDCall ident # calls) d = session calls (FreeID d ident)"

subsection \<open>Pixel upload\<close>

text \<open>
  How a call ends: it returns, or it panics, with a run-time error of the Go program,
  with the error value handed to \<open>panic(err)\<close>, or with the message of a panic raised
  inside a library. A call that never comes back has no outcome.
\<close>

datatype panic = RuntimeError string | ErrorValue string | LibraryPanic string

datatype 'a outcome = Returns 'a | Panics panic

text \<open>
  The \<open>'Y'\<close> (89) message that \<open>compressedReplaceSubimage\<close> builds when it flushes the
  rows \<open>blockYStart .. i-1\<close>.
\<close>

definition compressedMessage ::
  "32 word \<Rightarrow> Rectangle \<Rightarrow> int \<Rightarrow> int \<Rightarrow> byte list \<Rightarrow> byte list" where
  "compressedMessage dstid r blockYStart i compressed =
     (let msg = replicate (20 + length compressed) 0;
          msg = PutUint32 msg 0 dstid;
          msg = PutUint32 msg 4 (word_of_int (X (Min_pt r)));
          msg = PutUint32 msg 8 (word_of_int (int64 (Y (Min_pt r) + blockYStart)));
          msg = PutUint32 msg 12 (word_of_int (X (Max_pt r)));
          msg = PutUint32 msg 16 (word_of_int (int64 (Y (Min_pt r) + i)));
          msg = copy_at msg 20 compressed
      in msg)"

text \<open>
  The loop of \<open>compressedReplaceSubimage\<close>: \<open>for i := 0; i < rSize.Y; i += 1\<close> with the
  variables \<open>blockYStart\<close> and \<open>compressed\<close>. Inside the loop \<open>i\<close> is below
  \<open>rSize.Y\<close>, so \<open>i + 1\<close> does not leave the range.
\<close>

function compressedReplaceSubimage_loop ::
  "DrawCtrler \<Rightarrow> 32 word \<Rightarrow> Rectangle \<Rightarrow> byte list \<Rightarrow> int \<Rightarrow> int \<Rightarrow> byte list \<Rightarrow> DrawCtrler outcome" where
  "compressedReplaceSubimage_loop d dstid r pixels i blockYStart compressed =
     (let rSize = Size r in
      if i < Y rSize then
        (let rowStart = int64 (i * 4 * X rSize) in
         case slice pixels rowStart (int64 (rowStart + X rSize * 4)) of
           None \<Rightarrow> Panics (RuntimeError ''slice bounds out of range'')
         | Some linePixels \<Rightarrow>
             (case compress linePixels of
                None \<Rightarrow> Panics (RuntimeError ''index out of range'')
              | Some compressedLine \<Rightarrow>
                  if int (length compressed) + int (length compressedLine) \<ge> iounitSize d
                     \<or> i = int64 (Y rSize - 1)
                  then
                    (let msg = compressedMessage dstid r blockYStart i compressed;
                         d = sendMessage d 89 msg
                     in compressedReplaceSubimage_loop d dstid r pixels (i + 1) i compressedLine)
                  else
                    compressedReplaceSubimage_loop d dstid r pixels (i + 1) blockYStart
                      (compressed @ compressedLine)))
      else Returns d)"
  by pat_completeness auto
termination
  by (relation "measure (\<lambda>(d, dstid, r, pixels, i, blockYStart, compressed). nat (Y (Size r) - i))")
     auto

declare compressedReplaceSubimage_loop.simps [simp del]

definition compressedReplaceSubimage ::
  "DrawCtrler \<Rightarrow> 32 word \<Rightarrow> Rectangle \<Rightarrow> byte list \<Rightarrow> DrawCtrler outcome" where
  "compressedReplaceSubimage d dstid r pixels =
     compressedReplaceSubimage_loop d dstid r pixels 0 0 []"

text \<open>
  The loop of the plain path of \<open>ReplaceSubimage\<close>:
  \<open>for i := r.Min.Y; i < r.Max.Y; i += lineSize\<close>. With \<open>lineSize \<le> 0\<close> it does not
  end, so the function is partial: \<open>None\<close> is a run that never returns. A message
  buffer too short for its header makes the slice expression \<open>msg[12:]\<close> panic when
  it has 8 to 11 bytes, and \<open>PutUint32\<close> otherwise; these are the tests on
  \<open>shortLen\<close> and on the length of \<open>msg\<close>.
\<close>

partial_function (option) ReplaceSubimage_loop ::
  "DrawCtrler \<Rightarrow> 32 word \<Rightarrow> Rectangle \<Rightarrow> byte list \<Rightarrow> int \<Rightarrow> int \<Rightarrow> byte list \<Rightarrow> DrawCtrler outcome option" where
  "ReplaceSubimage_loop d dstid r pixels lineSize i msg =
     (let rSize = Size r in
      if i < Y (Max_pt r) then
        (let endline = int64 (i + lineSize);
             shorter = endline > Y (Max_pt r);
             endline = (if shorter then Y (Max_pt r) else endline);
             shortLen = int64 (20 + X rSize * (endline - i) * 4)
         in if shorter \<and> shortLen < 0
            then Some (Panics (RuntimeError ''makeslice: len out of range''))
            else if shorter \<and> 8 \<le> shortLen \<and> shortLen < 12
            then Some (Panics (RuntimeError ''slice bounds out of range''))
            else
              (let msg = (if shorter
                          then PutUint32 (PutUint32 (PutUint32
                                 (replicate (nat shortLen) 0)
                                 0 dstid) 4 (word_of_int (X (Min_pt r))))
                                 12 (word_of_int (X (Max_pt r)))
                          else msg);
                   msg = PutUint32 msg 8 (word_of_int i);
                   msg = PutUint32 msg 16 (word_of_int endline);
                   pixelsOffset = int64 (i * X rSize * 4)
               in if length msg < 20
                  then Some (Panics (RuntimeError ''index out of range''))
                  else if pixelsOffset < 0 \<or> pixelsOffset > int (length pixels)
                  then Some (Panics (RuntimeError ''slice bounds out of range''))
                  else
                    (let msg = copy_at msg 20 (drop (nat pixelsOffset) pixels);
                         d = sendMessage d 121 msg
                     in ReplaceSubimage_loop d dstid r pixels lineSize (int64 (i + lineSize)) msg)))
      else Some (Returns d))"

declare ReplaceSubimage_loop.simps [code]

text \<open>\<open>ReplaceSubimage\<close>: the choice between the three ways of sending.\<close>

definition ReplaceSubimage ::
  "DrawCtrler \<Rightarrow> 32 word \<Rightarrow> Rectangle \<Rightarrow> byte list \<Rightarrow> DrawCtrler outcome option" where
  "ReplaceSubimage d dstid r pixels =
     (if iounitSize d < 65535 \<and> length pixels > 256 then
        Some (compressedReplaceSubimage d dstid r pixels)
      else
        (let rSize = Size r in
         if int64 (X rSize * Y rSize * 4 + 21) < iounitSize d then
           (let len = int64 (20 + X rSize * Y rSize * 4) in
            if len < 0 then Some (Panics (RuntimeError ''makeslice: len out of range''))
            else if len < 20 then Some (Panics (RuntimeError ''index out of range''))
            else
              (let msg = replicate (nat len) 0;
                   msg = PutUint32 msg 0 dstid;
                   msg = PutUint32 msg 4 (word_of_int (X (Min_pt r)));
                   msg = PutUint32 msg 8 (word_of_int (Y (Min_pt r)));
                   msg = PutUint32 msg 12 (word_of_int (X (Max_pt r)));
                   msg = PutUint32 msg 16 (word_of_int (Y (Max_pt r)));
                   msg = copy_at msg 20 pixels
               in Some (Returns (sendMessage d 121 msg))))
         else if X rSize = 0 then Some (Panics (RuntimeError ''integer divide by zero''))
         else
           (let lineSize = quo (quo (iounitSize d) 4) (X rSize);
                len = int64 (20 + X rSize * lineSize * 4)
            in if len < 0 then Some (Panics (RuntimeError ''makeslice: len out of range''))
               else if 8 \<le> len \<and> len < 12 then Some (Panics (RuntimeError ''slice bounds out of range''))
               else if len < 16 then Some (Panics (RuntimeError ''index out of range''))
               else
                 (let msg = replicate (nat len) 0;
                      msg = PutUint32 msg 0 dstid;
                      msg = PutUint32 msg 4 (word_of_int (X (Min_pt r)));
                      msg = PutUint32 msg 12 (word_of_int (X (Max_pt r)))
                  in ReplaceSubimage_loop d dstid r pixels lineSize (Y (Min_pt r)) msg))))"

subsection \<open>Pixel read-back\<close>

text \<open>
  \<open>d.data.Read(p)\<close> where \<open>p\<close> is \<open>pixels[off:]\<close>: the bytes delivered overwrite the
  start of \<open>p\<close>, the rest of \<open>pixels\<close> is left as it was.
\<close>

definition Read_into :: "byte list \<Rightarrow> nat \<Rightarrow> read_result \<Rightarrow> byte list" where
  "Read_into pixels off res = copy_at pixels off (bytes res)"

text \<open>
  The loop of the chunked path of \<open>ReadSubimage\<close>:
  \<open>for i := r.Min.Y; i < r.Max.Y; i += lineSize\<close>. Every turn performs one read, so the
  recursion descends along \<open>data_reads\<close>; with nothing left to read the call blocks in
  \<open>Read\<close> and never returns, which is the outcome \<open>None\<close>.
\<close>

function ReadSubimage_loop ::
  "DrawCtrler \<Rightarrow> Rectangle \<Rightarrow> int \<Rightarrow> int \<Rightarrow> byte list \<Rightarrow> byte list
     \<Rightarrow> byte list outcome option \<times> DrawCtrler" where
  "ReadSubimage_loop d r lineSize i msg pixels =
     (let rSize = Size r in
      if i < Y (Max_pt r) then
        (let endline = int64 (i + lineSize);
             endline = (if endline > Y (Max_pt r) then Y (Max_pt r) else endline);
             msg = PutUint32 msg 8 (word_of_int i);
             msg = PutUint32 msg 16 (word_of_int endline);
             pixelsOffset = int64 ((i - Y (Min_pt r)) * X rSize * 4);
             d = sendMessage d 114 msg
         in if pixelsOffset < 0 \<or> pixelsOffset > int (length pixels)
            then (Some (Panics (RuntimeError ''slice bounds out of range'')), d)
            else
              (case data_reads d of
                 [] \<Rightarrow> (None, d)
               | res # rest \<Rightarrow>
                   (let pixels = Read_into pixels (nat pixelsOffset) res;
                        d = d\<lparr>data_reads := rest\<rparr>
                    in case err res of
                         Some e \<Rightarrow> (Some (Panics (ErrorValue e)), d)
                       | None \<Rightarrow> ReadSubimage_loop d r lineSize (int64 (i + lineSize)) msg pixels)))
      else (Some (Returns pixels), d))"
  by pat_completeness auto
termination
  by (relation "measure (\<lambda>(d, r, lineSize, i, msg, pixels). length (data_reads d))")
     (auto simp: sendMessage_def)

declare ReadSubimage_loop.simps [simp del]

text \<open>\<open>ReadSubimage\<close>; the command byte \<open>'r'\<close> is 114.\<close>

definition ReadSubimage ::
  "DrawCtrler \<Rightarrow> 32 word \<Rightarrow> Rectangle \<Rightarrow> byte list outcome option \<times> DrawCtrler" where
  "ReadSubimage d src r =
     (let rSize = Size r;
          msg = replicate 20 0;
          len = int64 (X rSize * Y rSize * 4)
      in if len < 0 then (Some (Panics (RuntimeError ''makeslice: len out of range'')), d)
         else
           (let pixels = replicate (nat len) 0 in
            if len < iounitSize d then
              (let msg = PutUint32 msg 0 src;
                   msg = PutUint32 msg 4 (word_of_int (X (Min_pt r)));
                   msg = PutUint32 msg 8 (word_of_int (Y (Min_pt r)));
                   msg = PutUint32 msg 12 (word_of_int (X (Max_pt r)));
                   msg = PutUint32 msg 16 (word_of_int (Y (Max_pt r)));
                   d = sendMessage d 114 msg
               in case data_reads d of
                    [] \<Rightarrow> (None, d)
                  | res # rest \<Rightarrow>
                      (let pixels = Read_into pixels 0 res;
                           d = d\<lparr>data_reads := rest\<rparr>
                       in case err res of
                            Some e \<Rightarrow> (Some (Panics (ErrorValue e)), d)
                          | None \<Rightarrow> (Some (Returns pixels), d)))
            else
              (let msg = PutUint32 msg 0 src;
                   msg = PutUint32 msg 4 (word_of_int (X (Min_pt r)));
                   msg = PutUint32 msg 12 (word_of_int (X (Max_pt r)))
               in if X rSize = 0 then (Some (Panics (RuntimeError ''integer divide by zero'')), d)
                  else
                    (let lineSize = quo (quo (iounitSize d) 4) (X rSize)
                     in ReadSubimage_loop d r lineSize (Y (Min_pt r)) msg pixels))))"

text \<open>
  What "a read error is fatal" says about one call, given the reads the device had ready
  before (\<open>reads\<close>), the outcome, and the reads left after: the call performed the first
  \<open>n\<close> reads in order; a read that returned an error was the last one performed and the
  call panicked with that error; and the call panicked with an error value only so.
\<close>

definition read_errors_fatal ::
  "read_result list \<Rightarrow> byte list outcome option \<Rightarrow> read_result list \<Rightarrow> bool" where
  "read_errors_fatal reads out reads' =
     (\<exists>n \<le> length reads. reads' = drop n reads \<and>
        (\<forall>j < n. \<forall>e. err (reads ! j) = Some e \<longrightarrow>
           Suc j = n \<and> out = Some (Panics (ErrorValue e))) \<and>
        (\<forall>e. out = Some (Panics (ErrorValue e)) \<longrightarrow>
           1 \<le> n \<and> err (reads ! (n - 1)) = Some e))"

text \<open>
  What the outcome of a read-back shows apart from the pixel values: returned with a
  buffer of some length, panicked, or never returned.
\<close>

definition outcome_shape :: "byte list outcome option \<Rightarrow> nat outcome option" where
  "outcome_shape out =
     map_option (\<lambda>oc. case oc of Returns p \<Rightarrow> Returns (length p) | Panics e \<Rightarrow> Panics e) out"

text \<open>
  The \<open>'Y'\<close> message of the table of wire commands: destination id, the rectangle
  \<open>x0, y0, x1, y1\<close>, then the compressed bytes.
\<close>

definition Y_message ::
  "32 word \<Rightarrow> int \<Rightarrow> int \<Rightarrow> int \<Rightarrow> int \<Rightarrow> byte list \<Rightarrow> byte list" where
  "Y_message dst x0 y0 x1 y1 body =
     89 # le32 dst @ le32 (word_of_int x0) @ le32 (word_of_int y0) @
          le32 (word_of_int x1) @ le32 (word_of_int y1) @ body"

text \<open>What \<open>compress\<close> makes of one row of 50 pixels that are all zero (200 bytes).\<close>

definition zero_row_compressed :: "byte list" where
  "zero_row_compressed = 255 # replicate 128 0 @ [120, 33, 120, 33, 133, 0, 0, 0, 0, 0, 0]"

text \<open>
  A \<open>'Y'\<close> message for the image \<open>dstid\<close> and the columns of \<open>r\<close> whose rows
  \<open>a .. b-1\<close>, counted from the top of \<open>r\<close>, start at \<open>lo\<close> or below and end before
  the last row of \<open>r\<close>.
\<close>

definition rows_before_last :: "32 word \<Rightarrow> Rectangle \<Rightarrow> int \<Rightarrow> byte list \<Rightarrow> bool" where
  "rows_before_last dstid r lo m =
     (\<exists>a b body. m = Y_message dstid (X (Min_pt r)) (Y (Min_pt r) + a) (X (Max_pt r))
                        (Y (Min_pt r) + b) body \<and>
                  lo \<le> a \<and> a \<le> b \<and> b \<le> Y (Size r) - 1)"

section \<open>EventTranslator: the mouse handler of wctl.go\<close>

text \<open>
  \<open>ButtonMask\<close> is a Go \<open>int\<close>; the handler only tests single bits of it, so an
  unbounded integer with the two's complement \<open>AND\<close> models it.
\<close>

type_synonym ButtonMask = int

definition MouseButtonLeft :: ButtonMask where "MouseButtonLeft = 1"
definition MouseButtonMiddle :: ButtonMask where "MouseButtonMiddle = 2"
definition MouseButtonRight :: ButtonMask where "MouseButtonRight = 4"
definition MouseScrollUp :: ButtonMask where "MouseScrollUp = 8"
definition MouseScrollDown :: ButtonMask where "MouseScrollDown = 16"

datatype Button =
  ButtonNone | ButtonLeft | ButtonMiddle | ButtonRight | ButtonWheelUp | ButtonWheelDown

datatype Direction = DirNone | DirPress | DirRelease

text \<open>
  \<open>mouse.Event\<close> with its fields \<open>X\<close>, \<open>Y\<close>, \<open>Button\<close>, \<open>Direction\<close>, in this order.
  The coordinates are the \<open>float32\<close> values parsed from the record; the handler only
  passes them on, so their type is left open.
\<close>

datatype 'c Event = Event 'c 'c Button Direction

text \<open>
  One \<open>if cond { notifier <- ev; sentEvt = true }\<close> of the handler. The state is the
  sequence of events sent on \<open>notifier\<close> so far and the flag \<open>sentEvt\<close>.
\<close>

definition notify_if :: "bool \<Rightarrow> 'c Event \<Rightarrow> 'c Event list \<times> bool \<Rightarrow> 'c Event list \<times> bool" where
  "notify_if cond ev st = (if cond then (fst st @ [ev], True) else st)"

text \<open>
  The body of \<open>case 'm'\<close> for a record that parsed to \<open>x\<close>, \<open>y\<close>, \<open>buttons\<close>: the events
  sent, and the new value of \<open>prevmask\<close>.
\<close>

definition mouseRecord :: "ButtonMask \<Rightarrow> 'c \<Rightarrow> 'c \<Rightarrow> ButtonMask \<Rightarrow> 'c Event list \<times> ButtonMask" where
  "mouseRecord prevmask x y buttons =
     (let st = ([], False);
          st = notify_if (buttons AND MouseButtonLeft \<noteq> 0 \<and> prevmask AND MouseButtonLeft = 0)
                 (Event x y ButtonLeft DirPress) st;
          st = notify_if (buttons AND MouseButtonLeft = 0 \<and> prevmask AND MouseButtonLeft \<noteq> 0)
                 (Event x y ButtonLeft DirRelease) st;
          st = notify_if (buttons AND MouseButtonMiddle \<noteq> 0 \<and> prevmask AND MouseButtonMiddle = 0)
                 (Event x y ButtonMiddle DirPress) st;
          st = notify_if (buttons AND MouseButtonMiddle = 0 \<and> prevmask AND MouseButtonMiddle \<noteq> 0)
                 (Event x y ButtonMiddle DirRelease) st;
          st = notify_if (buttons AND MouseButtonRight \<noteq> 0 \<and> prevmask AND MouseButtonRight = 0)
                 (Event x y ButtonRight DirPress) st;
          st = notify_if (buttons AND MouseButtonRight = 0 \<and> prevmask AND MouseButtonRight \<noteq> 0)
                 (Event x y ButtonRight DirRelease) st;
          st = notify_if (buttons AND MouseScrollUp \<noteq> 0 \<and> prevmask AND MouseScrollUp = 0)
                 (Event x y ButtonWheelUp DirPress) st;
          st = notify_if (buttons AND MouseScrollUp = 0 \<and> prevmask AND MouseScrollUp \<noteq> 0)
                 (Event x y ButtonWheelUp DirRelease) st;
          st = notify_if (buttons AND MouseScrollDown \<noteq> 0 \<and> prevmask AND MouseScrollDown = 0)
                 (Event x y ButtonWheelDown DirPress) st;
          st = notify_if (buttons AND MouseScrollDown = 0 \<and> prevmask AND MouseScrollDown \<noteq> 0)
                 (Event x y ButtonWheelDown DirRelease) st;
          st = (if snd st = False then (fst st @ [Event x y ButtonNone DirNone], snd st) else st)
      in (fst st, buttons))"

text \<open>
  The handler loop over a sequence of parsed movement records, from the value of
  \<open>prevmask\<close> it starts with: all events sent, in order. The loop starts with
  \<open>prevmask = 0\<close>.
\<close>

fun mouseRecords :: "ButtonMask \<Rightarrow> ('c \<times> 'c \<times> ButtonMask) list \<Rightarrow> 'c Event list" where
  "mouseRecords prevmask [] = []"
| "mouseRecords prevmask ((x, y, buttons) # rest) =
     (case mouseRecord prevmask x y buttons of
        (evs, prevmask') \<Rightarrow> evs @ mouseRecords prevmask' rest)"

text \<open>
  The translation as the specification words it: for each of the five tracked bits, in
  the order left, middle, right, wheel-up, wheel-down, a press when the bit is newly set
  and a release when it is newly cleared; one event without button when there is none.
\<close>

definition tracked :: "(ButtonMask \<times> Button) list" where
  "tracked = [(1, ButtonLeft), (2, ButtonMiddle), (4, ButtonRight),
              (8, ButtonWheelUp), (16, ButtonWheelDown)]"

definition transition :: "ButtonMask \<Rightarrow> ButtonMask \<Rightarrow> 'c \<Rightarrow> 'c \<Rightarrow> ButtonMask \<times> Button \<Rightarrow> 'c Event list" where
  "transition prevmask buttons x y t =
     (if buttons AND fst t \<noteq> 0 \<and> prevmask AND fst t = 0 then [Event x y (snd t) DirPress]
      else if buttons AND fst t = 0 \<and> prevmask AND fst t \<noteq> 0 then [Event x y (snd t) DirRelease]
      else [])"

definition transitions :: "ButtonMask \<Rightarrow> ButtonMask \<Rightarrow> 'c \<Rightarrow> 'c \<Rightarrow> 'c Event list" where
  "transitions prevmask buttons x y = concat (map (transition prevmask buttons x y) tracked)"

definition translated :: "ButtonMask \<Rightarrow> ButtonMask \<Rightarrow> 'c \<Rightarrow> 'c \<Rightarrow> 'c Event list" where
  "translated prevmask buttons x y =
     (if transitions prevmask buttons x y = [] then [Event x y ButtonNone DirNone]
      else transitions prevmask buttons x y)"

section \<open>BlitEngine: the window part of uploadimpl.go\<close>

subsection \<open>The \<open>float64\<close> values of the transform\<close>

text \<open>
  A \<open>float64\<close> is a finite binary fraction, an infinity or a NaN. \<open>Finite m e\<close> stands
  for \<open>m * 2^e\<close>; several pairs may stand for one number. The sign of zero is not
  modelled: the operations used here (conversion from and to \<open>int\<close>, \<open>*\<close>, \<open>+\<close>,
  \<open>==\<close>) do not observe it. The operations are the IEEE 754 ones in the default
  rounding mode: the exact result, rounded to the nearest value with a 53-bit
  significand and an exponent of the binary64 range, ties to the even significand.
  Every product and every sum is rounded on its own (no fused multiply-add), and \<open>int\<close>
  has 64 bits.
\<close>

datatype f64 = Finite int int | Infinite bool | NaN

text \<open>\<open>rne m s\<close>: the integer nearest to \<open>m / 2^s\<close>, ties to even.\<close>

definition rne :: "int \<Rightarrow> nat \<Rightarrow> int" where
  "rne m s =
     (let d = m div 2 ^ s; r = m mod 2 ^ s
      in if 2 * r < 2 ^ s then d
         else if 2 * r > 2 ^ s then d + 1
         else if even d then d else d + 1)"

text \<open>
  Rounding the exact value \<open>m * 2^e\<close>. \<open>E\<close> is the exponent of its leading bit and \<open>q\<close>
  the weight of the last bit kept: 52 places below the leading bit, and not below the
  weight \<open>2^-1074\<close> of the subnormal numbers.
\<close>

definition round_f64 :: "int \<Rightarrow> int \<Rightarrow> f64" where
  "round_f64 m e =
     (if m = 0 then Finite 0 0
      else
        (let E = e + bitlen \<bar>m\<bar> - 1;
             q = max (E - 52) (- 1074)
         in if q \<le> e then (if E > 1023 then Infinite (m < 0) else Finite m e)
            else
              (let m' = rne m (nat (q - e))
               in if E > 1023 \<or> (q = 971 \<and> \<bar>m'\<bar> = 2 ^ 53) then Infinite (m < 0)
                  else Finite m' q)))"

text \<open>The conversion \<open>float64(x)\<close> of an \<open>int\<close>.\<close>

definition f64_of_int :: "int \<Rightarrow> f64" where
  "f64_of_int x = round_f64 x 0"

fun f64_mul :: "f64 \<Rightarrow> f64 \<Rightarrow> f64" where
  "f64_mul NaN b = NaN"
| "f64_mul a NaN = NaN"
| "f64_mul (Infinite s) (Infinite t) = Infinite (s \<noteq> t)"
| "f64_mul (Infinite s) (Finite m e) = (if m = 0 then NaN else Infinite (s \<noteq> (m < 0)))"
| "f64_mul (Finite m e) (Infinite s) = (if m = 0 then NaN else Infinite (s \<noteq> (m < 0)))"
| "f64_mul (Finite m1 e1) (Finite m2 e2) = round_f64 (m1 * m2) (e1 + e2)"

fun f64_add :: "f64 \<Rightarrow> f64 \<Rightarrow> f64" where
  "f64_add NaN b = NaN"
| "f64_add a NaN = NaN"
| "f64_add (Infinite s) (Infinite t) = (if s = t then Infinite s else NaN)"
| "f64_add (Infinite s) (Finite m e) = Infinite s"
| "f64_add (Finite m e) (Infinite s) = Infinite s"
| "f64_add (Finite m1 e1) (Finite m2 e2) =
     (let e = min e1 e2
      in round_f64 (m1 * 2 ^ nat (e1 - e) + m2 * 2 ^ nat (e2 - e)) e)"

text \<open>The comparison \<open>==\<close>: a NaN equals nothing.\<close>

fun f64_eq :: "f64 \<Rightarrow> f64 \<Rightarrow> bool" where
  "f64_eq (Finite m1 e1) (Finite m2 e2) =
     (let e = min e1 e2 in m1 * 2 ^ nat (e1 - e) = m2 * 2 ^ nat (e2 - e))"
| "f64_eq (Infinite s) (Infinite t) = (s = t)"
| "f64_eq a b = False"

text \<open>
  The conversion \<open>int(f)\<close> truncates toward zero. Where the result does not fit the
  64-bit \<open>int\<close>, and for infinities and NaN, Go leaves the value to the
  implementation: it is the parameter \<open>conv\<close>.
\<close>

fun f64_to_int :: "(f64 \<Rightarrow> int) \<Rightarrow> f64 \<Rightarrow> int" where
  "f64_to_int conv (Finite m e) =
     (let t = (if e \<ge> 0 then m * 2 ^ nat e else sgn m * (\<bar>m\<bar> div 2 ^ nat (- e)))
      in if - (2 ^ 63) \<le> t \<and> t < 2 ^ 63 then t else conv (Finite m e))"
| "f64_to_int conv f = conv f"

text \<open>\<open>f64.Aff3\<close>, an array of six \<open>float64\<close>, and the constants 0 and 1.\<close>

type_synonym Aff3 = "f64 \<times> f64 \<times> f64 \<times> f64 \<times> f64 \<times> f64"

definition f64_zero :: f64 where "f64_zero = Finite 0 0"
definition f64_one :: f64 where "f64_one = Finite 1 0"

subsection \<open>\<open>affineTransform\<close>\<close>

definition mapPoint :: "(f64 \<Rightarrow> int) \<Rightarrow> Aff3 \<Rightarrow> Point \<Rightarrow> Point" where
  "mapPoint conv src2dst p =
     (case src2dst of (m0, m1, m2, m3, m4, m5) \<Rightarrow>
        (let xf = f64_of_int (X p); yf = f64_of_int (Y p)
         in \<lparr>X = f64_to_int conv (f64_add (f64_add (f64_mul xf m0) (f64_mul yf m1)) m2),
             Y = f64_to_int conv (f64_add (f64_add (f64_mul xf m3) (f64_mul yf m4)) m5)\<rparr>))"

text \<open>The closure \<open>updateMinMax\<close>; the captured variables \<open>min\<close> and \<open>max\<close> are the state.\<close>

definition updateMinMax :: "Point \<Rightarrow> Point \<times> Point \<Rightarrow> Point \<times> Point" where
  "updateMinMax p st =
     (let mn = fst st; mx = snd st;
          mn = (if X p < X mn then mn\<lparr>X := X p\<rparr> else mn);
          mn = (if Y p < Y mn then mn\<lparr>Y := Y p\<rparr> else mn);
          mx = (if X p > X mx then mx\<lparr>X := X p\<rparr> else mx);
          mx = (if Y p > Y mx then mx\<lparr>Y := Y p\<rparr> else mx)
      in (mn, mx))"

definition affineTransform :: "(f64 \<Rightarrow> int) \<Rightarrow> Aff3 \<Rightarrow> Rectangle \<Rightarrow> Rectangle" where
  "affineTransform conv src2dst sr =
     (let topLeft = mapPoint conv src2dst (Min_pt sr);
          st = (topLeft, topLeft);
          p = mapPoint conv src2dst \<lparr>X = X (Max_pt sr), Y = Y (Min_pt sr)\<rparr>;
          st = updateMinMax p st;
          p = mapPoint conv src2dst \<lparr>X = X (Min_pt sr), Y = Y (Max_pt sr)\<rparr>;
          st = updateMinMax p st;
          p = mapPoint conv src2dst \<lparr>X = X (Max_pt sr), Y = Y (Max_pt sr)\<rparr>;
          st = updateMinMax p st
      in \<lparr>Min_pt = fst st, Max_pt = snd st\<rparr>)"

text \<open>The identity matrix: rows \<open>1, 0, 0\<close> and \<open>0, 1, 0\<close>.\<close>

definition identity_Aff3 :: Aff3 where
  "identity_Aff3 = (f64_one, f64_zero, f64_zero, f64_zero, f64_one, f64_zero)"

subsection \<open>\<open>windowImpl.Draw\<close>\<close>

text \<open>
  \<open>image.NewRGBA(r)\<close> of Go's standard library allocates a pixel buffer of
  \<open>4 * r.Dx() * r.Dy()\<close> bytes. It computes the length with its helper \<open>mul3NonNeg\<close>,
  which multiplies the three factors one after the other as unsigned 64-bit numbers and
  gives up when a factor is negative, when a product does not fit 64 bits, or when the
  result does not fit an \<open>int\<close>; \<open>NewRGBA\<close> then panics. \<open>NewRGBA_length\<close> is the length
  of the buffer, \<open>None\<close> the panic.
\<close>

definition mul3NonNeg :: "int \<Rightarrow> int \<Rightarrow> int \<Rightarrow> int" where
  "mul3NonNeg x y z =
     (if x < 0 \<or> y < 0 \<or> z < 0 then - 1
      else if x * y \<ge> 2 ^ 64 then - 1
      else if x * y * z \<ge> 2 ^ 64 then - 1
      else if x * y * z \<ge> 2 ^ 63 then - 1
      else x * y * z)"

definition NewRGBA_length :: "Rectangle \<Rightarrow> nat option" where
  "NewRGBA_length r =
     (let totalLength = mul3NonNeg 4 (X (Size r)) (Y (Size r))
      in if totalLength < 0 then None else Some (nat totalLength))"

text \<open>
  The window is its image id \<open>w_imageId\<close> and the controller of its screen; the source is
  a \<open>*textureImpl\<close>, taken by its image id. The resampling
  \<open>xdraw.NearestNeighbor.Transform\<close> belongs to another package and is the parameter
  \<open>transform\<close>: from the matrix, the destination bounds, the source pixels, the source
  rectangle and the operator to the bytes it stores into the pixel buffer of the
  destination image, which keeps its length.
\<close>

definition windowImpl_Draw ::
  "(f64 \<Rightarrow> int) \<Rightarrow> (Aff3 \<Rightarrow> Rectangle \<Rightarrow> byte list \<Rightarrow> Rectangle \<Rightarrow> int \<Rightarrow> byte list) \<Rightarrow>
   DrawCtrler \<Rightarrow> 32 word \<Rightarrow> Aff3 \<Rightarrow> 32 word \<Rightarrow> Rectangle \<Rightarrow> int \<Rightarrow> DrawCtrler outcome option" where
  "windowImpl_Draw conv transform d w_imageId src2dst srcT_imageId sr op =
     (case src2dst of (m0, m1, m2, m3, m4, m5) \<Rightarrow>
        if f64_eq m0 f64_one \<and> f64_eq m1 f64_zero \<and> f64_eq m3 f64_zero \<and> f64_eq m4 f64_one
        then
          (let srSize = Size sr;
               newRectangle =
                 \<lparr>Min_pt = \<lparr>X = f64_to_int conv m2, Y = f64_to_int conv m5\<rparr>,
                  Max_pt = \<lparr>X = int64 (f64_to_int conv m2 + X srSize),
                            Y = int64 (f64_to_int conv m5 + Y srSize)\<rparr>\<rparr>
           in Some (Returns
                (Draw d w_imageId srcT_imageId srcT_imageId newRectangle (Min_pt sr) ZP op)))
        else
          (case ReadSubimage d srcT_imageId sr of
             (None, d) \<Rightarrow> None
           | (Some (Panics e), d) \<Rightarrow> Some (Panics e)
           | (Some (Returns pixels), d) \<Rightarrow>
               (case NewRGBA_length sr of
                  None \<Rightarrow> Some (Panics (LibraryPanic
                            ''image: NewRGBA Rectangle has huge or negative dimensions''))
                | Some srcLength \<Rightarrow>
                    (let newRectangle = affineTransform conv src2dst sr in
                     case NewRGBA_length newRectangle of
                       None \<Rightarrow> Some (Panics (LibraryPanic
                                 ''image: NewRGBA Rectangle has huge or negative dimensions''))
                     | Some dstLength \<Rightarrow>
                         (let transformedPix =
                                copy_at (replicate dstLength 0) 0
                                  (transform src2dst newRectangle pixels sr op);
                              newOriginRectangle = \<lparr>Min_pt = ZP, Max_pt = Size newRectangle\<rparr>;
                              (imageId, d) = AllocBuffer d 0 False newOriginRectangle newOriginRectangle
                                               \<lparr>red = 0, green = 0, blue = 0, alpha = 0\<rparr>
                          in case ReplaceSubimage d imageId newOriginRectangle transformedPix of
                               None \<Rightarrow> None
                             | Some (Panics e) \<Rightarrow> Some (Panics e)
                             | Some (Returns d) \<Rightarrow>
                                 (let d = Draw d w_imageId imageId imageId newRectangle ZP ZP op;
                                      d = FreeID d imageId
                                  in Some (Returns d)))))))"

section \<open>Integers\<close>

lemma int64_id: "- (2 ^ 63) \<le> x \<Longrightarrow> x < 2 ^ 63 \<Longrightarrow> int64 x = x"
  by (simp add: int64_def)

lemma int64_range: "- (2 ^ 63) \<le> int64 x \<and> int64 x < 2 ^ 63"
  by (simp add: int64_def)

lemma int64_mod32: "int64 x mod 2 ^ 32 = x mod 2 ^ 32"
proof -
  have d: "(2::int) ^ 32 dvd 2 ^ 64" by (simp add: le_imp_power_dvd)
  have d': "(2::int) ^ 32 dvd 2 ^ 63" by (simp add: le_imp_power_dvd)
  have "int64 x mod 2 ^ 32 = ((x + 2 ^ 63) mod 2 ^ 64 mod 2 ^ 32 - 2 ^ 63 mod 2 ^ 32) mod 2 ^ 32"
    unfolding int64_def by (simp only: mod_diff_eq)
  also have "(x + 2 ^ 63) mod 2 ^ 64 mod 2 ^ 32 = (x + 2 ^ 63) mod 2 ^ 32"
    using d by (rule mod_mod_cancel)
  also have "((x + 2 ^ 63) mod 2 ^ 32 - 2 ^ 63 mod 2 ^ 32) mod 2 ^ 32 = (x + 2 ^ 63 - 2 ^ 63) mod 2 ^ 32"
    by (simp only: mod_diff_eq)
  finally show ?thesis by simp
qed

lemma int64_word: "(word_of_int (int64 x) :: 32 word) = word_of_int x"
  using int64_mod32[of x] by (simp add: word_of_int_eq_iff take_bit_eq_mod)

section \<open>Codec: properties\<close>

lemma unat_of_nat8: "j < 256 \<Longrightarrow> unat (word_of_nat j :: 8 word) = j"
  by (simp add: unat_of_nat)

lemma cand_ok_not34: "cand_ok pix idx (ci, cs) \<Longrightarrow> cs \<noteq> 34"
  by (auto simp: cand_ok_def)

lemma cand_ok_update:
  assumes "i + 34 \<le> idx" "idx < i + 128" "idx + 34 < length pix" "j < 34" "0 < j"
    and "\<forall>k\<le>j. pix ! (i + k) = pix ! (idx + k)"
  shows "cand_ok pix idx (word_of_nat i, word_of_nat j)"
  using assms unfolding cand_ok_def by (auto simp: unat_of_nat8 intro!: exI[of _ i])

lemma inner_keeps:
  assumes "cand_ok pix idx c" "i + 34 \<le> idx" "idx < i + 128" "idx + 34 < length pix"
    and "vals = drop j (take 34 (drop idx pix))"
    and "\<forall>k<j. pix ! (i + k) = pix ! (idx + k)"
  shows "\<exists>c'. getLargestPrefix_inner pix i j vals c = (False, c') \<and> cand_ok pix idx c'"
  using assms
proof (induction vals arbitrary: j c)
  case Nil
  then show ?case by (cases c) simp
next
  case (Cons val vals)
  obtain ci cs where c: "c = (ci, cs)" by (cases c)
  let ?xs = "take 34 (drop idx pix)"
  have len: "length ?xs = 34" using Cons.prems(4) by simp
  have j: "j < 34"
  proof (rule ccontr)
    assume "\<not> j < 34"
    then have "drop j ?xs = []" using len by simp
    with Cons.prems(5) show False by simp
  qed
  have "?xs ! j # drop (Suc j) ?xs = drop j ?xs"
    using j len by (intro Cons_nth_drop_Suc) simp
  with Cons.prems(5) have "val # vals = ?xs ! j # drop (Suc j) ?xs" by simp
  then have "val = ?xs ! j" and vals: "vals = drop (Suc j) ?xs" by simp_all
  then have val: "val = pix ! (idx + j)" using j Cons.prems(4) by simp
  have inb: "i + j < length pix" using j Cons.prems(2,4) by simp
  show ?case
  proof (cases "val = pix ! (i + j)")
    case False
    then show ?thesis using inb c Cons.prems(1) by simp
  next
    case True
    then have eq: "\<forall>k<Suc j. pix ! (i + k) = pix ! (idx + k)"
      using Cons.prems(6) val by (auto simp: less_Suc_eq)
    define c' where "c' = (if j > unat cs then (word_of_nat i :: 16 word, word_of_nat j :: 8 word) else (ci, cs))"
    have ok': "cand_ok pix idx c'"
    proof (cases "j > unat cs")
      case True
      then have "0 < j" by simp
      moreover have "\<forall>k\<le>j. pix ! (i + k) = pix ! (idx + k)" using eq by (simp add: less_Suc_eq_le)
      ultimately show ?thesis
        unfolding c'_def using True cand_ok_update[OF Cons.prems(2,3,4) j] by simp
    next
      case False
      then show ?thesis unfolding c'_def using Cons.prems(1) c by simp
    qed
    then have n34: "snd c' \<noteq> 34" using cand_ok_not34[of pix idx "fst c'" "snd c'"] by simp
    have "getLargestPrefix_inner pix i j (val # vals) c = getLargestPrefix_inner pix i (Suc j) vals c'"
      using inb True n34 c unfolding c'_def by (simp add: Let_def)
    moreover have "\<exists>c''. getLargestPrefix_inner pix i (Suc j) vals c' = (False, c'') \<and> cand_ok pix idx c''"
      using Cons.IH[OF ok' Cons.prems(2,3,4) vals eq] .
    ultimately show ?thesis by simp
  qed
qed

lemma outer_keeps:
  assumes "cand_ok pix idx c" "i \<le> int idx - 34" "idx < length pix"
  shows "\<exists>c'. getLargestPrefix_outer pix idx i c = Some (False, c') \<and> cand_ok pix idx c'"
  using assms
proof (induction pix idx i c rule: getLargestPrefix_outer.induct)
  case (1 pix idx i c)
  show ?case
  proof (cases "i \<ge> 0 \<and> int idx - i < 128")
    case False
    then have "getLargestPrefix_outer pix idx i c = Some (False, c)"
      by (subst getLargestPrefix_outer.simps) (simp only: if_False)
    then show ?thesis using "1.prems"(1) by simp
  next
    case True
    then have inb: "nat i < length pix" "nat i + 34 \<le> idx" "idx < nat i + 128"
      using "1.prems"(2,3) by auto
    show ?thesis
    proof (cases "pix ! nat i = pix ! idx")
      case False
      have "getLargestPrefix_outer pix idx i c = getLargestPrefix_outer pix idx (i - 1) c"
        using True False inb "1.prems"(3) by (simp add: getLargestPrefix_outer.simps[of pix idx i c])
      moreover have "\<exists>c'. getLargestPrefix_outer pix idx (i - 1) c = Some (False, c') \<and> cand_ok pix idx c'"
        using "1.IH"(2)[OF True _ False "1.prems"(1) _ "1.prems"(3)] inb "1.prems"(2,3) by simp
      ultimately show ?thesis by simp
    next
      case eq: True
      show ?thesis
      proof (cases "idx + 34 \<ge> length pix")
        case True
        then have "getLargestPrefix_outer pix idx i c = Some (False, c)"
          using \<open>i \<ge> 0 \<and> int idx - i < 128\<close> eq inb "1.prems"(3)
          by (simp add: getLargestPrefix_outer.simps[of pix idx i c])
        then show ?thesis using "1.prems"(1) by simp
      next
        case False
        then have lt: "idx + 34 < length pix" by simp
        obtain c' where in1: "getLargestPrefix_inner pix (nat i) 0 (take 34 (drop idx pix)) c = (False, c')"
          and ok': "cand_ok pix idx c'"
          using inner_keeps[OF "1.prems"(1) inb(2,3) lt, of "take 34 (drop idx pix)" 0] by auto
        have "getLargestPrefix_outer pix idx i c = getLargestPrefix_outer pix idx (i - 1) c'"
          using True eq inb "1.prems"(3) False in1 by (simp add: getLargestPrefix_outer.simps[of pix idx i c])
        moreover have "\<exists>c''. getLargestPrefix_outer pix idx (i - 1) c' = Some (False, c'') \<and> cand_ok pix idx c''"
          using "1.IH"(1)[OF True _ eq _ in1[symmetric] refl ok' _ "1.prems"(3)] inb "1.prems"(2,3) False
          by simp
        ultimately show ?thesis by simp
      qed
    qed
  qed
qed

lemma getLargestPrefix_spec:
  assumes "idx < length pix"
  shows "\<exists>c. getLargestPrefix pix idx = Some c \<and> cand_ok pix idx c \<and> (snd c > 2 \<or> c = (0, 0))"
proof -
  have "cand_ok pix idx (0, 0)" by (simp add: cand_ok_def)
  from outer_keeps[OF this _ assms, of "int idx - 34"]
  obtain c' where o: "getLargestPrefix_outer pix idx (int idx - 34) (0, 0) = Some (False, c')"
    and ok: "cand_ok pix idx c'" by auto
  show ?thesis
  proof (cases "snd c' > 2")
    case True
    then have "getLargestPrefix pix idx = Some c'"
      using o by (cases c') (simp add: getLargestPrefix_def)
    then show ?thesis using ok True by simp
  next
    case False
    then have "getLargestPrefix pix idx = Some (0, 0)"
      using o by (cases c') (simp add: getLargestPrefix_def)
    then show ?thesis by (simp add: cand_ok_def)
  qed
qed

lemma copy_back_take:
  assumes "d \<le> i" "0 < d" "i + n \<le> length pix" "\<forall>k<n. pix ! (i - d + k) = pix ! (i + k)"
  shows "copy_back n d (take i pix) = take (i + n) pix"
  using assms
proof (induction n arbitrary: i)
  case 0
  then show ?case by simp
next
  case (Suc n)
  have i: "i < length pix" using Suc.prems(3) by simp
  have "take i pix ! (length (take i pix) - d) = pix ! (i - d)"
    using i Suc.prems(1,2) by simp
  also have "\<dots> = pix ! i" using Suc.prems(4) by (metis add.right_neutral zero_less_Suc)
  finally have "copy_back (Suc n) d (take i pix) = copy_back n d (take (Suc i) pix)"
    using i by (simp add: take_Suc_conv_app_nth)
  also have "\<dots> = take (Suc i + n) pix"
  proof (rule Suc.IH)
    show "d \<le> Suc i" using Suc.prems(1) by simp
    show "0 < d" by fact
    show "Suc i + n \<le> length pix" using Suc.prems(3) by simp
    show "\<forall>k<n. pix ! (Suc i - d + k) = pix ! (Suc i + k)"
    proof (intro allI impI)
      fix k assume "k < n"
      then have "pix ! (i - d + Suc k) = pix ! (i + Suc k)"
        using Suc.prems(4)[rule_format, of "Suc k"] by simp
      moreover have "Suc i - d + k = i - d + Suc k" using Suc.prems(1) by simp
      ultimately show "pix ! (Suc i - d + k) = pix ! (Suc i + k)" by simp
    qed
  qed
  finally show ?case by simp
qed

lemma decode_tokens_append:
  "decode_tokens out a = Some out' \<Longrightarrow> decode_tokens out (a @ b) = decode_tokens out' b"
proof (induction out a arbitrary: out' rule: decode_tokens.induct)
  case (1 out)
  then show ?case by simp
next
  case (2 out b0 rest)
  show ?case
  proof (cases "bit b0 7")
    case True
    define n where "n = unat (b0 AND 0x7F) + 1"
    have ge: "\<not> length rest < n" using "2.prems" True by (auto simp: n_def Let_def split: if_splits)
    then have d: "decode_tokens (out @ take n rest) (drop n rest) = Some out'"
      using "2.prems" True by (simp add: n_def Let_def)
    have "decode_tokens out ((b0 # rest) @ b) = decode_tokens (out @ take n rest) (drop n rest @ b)"
      using True ge by (simp add: n_def Let_def)
    also have "\<dots> = decode_tokens out' b"
      using "2.IH"(1)[OF True n_def ge d] .
    finally show ?thesis .
  next
    case False
    from False obtain b2 rest' where rest: "rest = b2 # rest'"
      using "2.prems" by (cases rest) auto
    define len where "len = unat (drop_bit 2 b0 AND 0x1F) + 3"
    define distance where "distance = unat (b0 AND 3) * 256 + unat b2 + 1"
    have ge: "\<not> distance > length out"
      using "2.prems" False rest by (auto simp: distance_def Let_def split: if_splits)
    then have d: "decode_tokens (copy_back len distance out) rest' = Some out'"
      using "2.prems" False rest by (simp add: distance_def len_def Let_def)
    have "decode_tokens out ((b0 # rest) @ b) = decode_tokens (copy_back len distance out) (rest' @ b)"
      using False ge rest by (simp add: distance_def len_def Let_def)
    also have "\<dots> = decode_tokens out' b"
      using False rest len_def distance_def ge d by (rule "2.IH"(2))
    finally show ?thesis .
  qed
qed


lemma enc_offset_bits:
  "\<forall>x\<in>set [0..<256]. (word_of_nat x :: 16 word) AND 0x0300 = 0 \<and>
     (ucast ((word_of_nat x :: 16 word) AND 0x00FF) :: 8 word) = word_of_nat x"
  by code_simp

lemma enc_length_bits:
  "\<forall>s\<in>set [3..<34]. \<not> bit (push_bit 2 ((word_of_nat s :: 8 word) - 3)) 7 \<and>
     unat (drop_bit 2 (push_bit 2 ((word_of_nat s :: 8 word) - 3)) AND 0x1F) + 3 = s \<and>
     (push_bit 2 ((word_of_nat s :: 8 word) - 3)) AND 3 = 0"
  by code_simp

lemma enc_literal_bits:
  "\<forall>l\<in>set [1..<129]. bit (0x80 OR word_of_nat (l - 1) :: 8 word) 7 \<and>
     unat ((0x80 OR word_of_nat (l - 1) :: 8 word) AND 0x7F) + 1 = l"
  by code_simp

lemma enc_offset_small:
  assumes "x < 256"
  shows "(word_of_nat x :: 16 word) AND 0x0300 = 0"
    and "(ucast ((word_of_nat x :: 16 word) AND 0x00FF) :: 8 word) = word_of_nat x"
proof -
  have "x \<in> {0..<256}" using assms by simp
  then have "x \<in> set [0..<256]" by (simp only: set_upt)
  then show "(word_of_nat x :: 16 word) AND 0x0300 = 0"
    and "(ucast ((word_of_nat x :: 16 word) AND 0x00FF) :: 8 word) = word_of_nat x"
    using enc_offset_bits by blast+
qed

lemma enc_length_small:
  assumes "3 \<le> unat (cs :: 8 word)" "unat cs \<le> 33"
  shows "\<not> bit (push_bit 2 (cs - 3)) 7"
    and "unat (drop_bit 2 (push_bit 2 (cs - 3)) AND 0x1F) + 3 = unat cs"
    and "push_bit 2 (cs - 3) AND 3 = 0"
proof -
  have "unat cs \<in> {3..<34}" using assms by simp
  then have "unat cs \<in> set [3..<34]" by (simp only: set_upt)
  with enc_length_bits have
    "\<not> bit (push_bit 2 ((word_of_nat (unat cs) :: 8 word) - 3)) 7 \<and>
     unat (drop_bit 2 (push_bit 2 ((word_of_nat (unat cs) :: 8 word) - 3)) AND 0x1F) + 3 = unat cs \<and>
     (push_bit 2 ((word_of_nat (unat cs) :: 8 word) - 3)) AND 3 = 0"
    by blast
  then show "\<not> bit (push_bit 2 (cs - 3)) 7"
    and "unat (drop_bit 2 (push_bit 2 (cs - 3)) AND 0x1F) + 3 = unat cs"
    and "push_bit 2 (cs - 3) AND 3 = 0"
    by simp_all
qed

lemma enc_literal_small:
  assumes "1 \<le> l" "l \<le> 128"
  shows "bit (0x80 OR word_of_nat (l - 1) :: 8 word) 7"
    and "unat ((0x80 OR word_of_nat (l - 1) :: 8 word) AND 0x7F) + 1 = l"
proof -
  have "l \<in> {1..<129}" using assms by simp
  then have "l \<in> set [1..<129]" by (simp only: set_upt)
  then show "bit (0x80 OR word_of_nat (l - 1) :: 8 word) 7"
    and "unat ((0x80 OR word_of_nat (l - 1) :: 8 word) AND 0x7F) + 1 = l"
    using enc_literal_bits by blast+
qed

lemma encodedOffset_eq:
  assumes "m \<le> i" "m < i"
  shows "(word_of_int (int i - uint (word_of_nat m :: 16 word)) :: 16 word) - 1 = word_of_nat (i - m - 1)"
proof -
  have "(word_of_int (int i - uint (word_of_nat m :: 16 word)) :: 16 word)
      = word_of_int (int i) - word_of_int (uint (word_of_nat m :: 16 word))"
    by (simp add: wi_hom_sub)
  also have "\<dots> = word_of_nat i - word_of_nat m" by simp
  also have "\<dots> = word_of_nat (i - m)" using assms(1) by (simp add: of_nat_diff)
  finally have "(word_of_int (int i - uint (word_of_nat m :: 16 word)) :: 16 word) - 1
      = word_of_nat (i - m) - 1" by simp
  also have "\<dots> = word_of_nat (i - m - 1)" using assms(2) by (simp add: of_nat_diff)
  finally show ?thesis .
qed

lemma backref_token:
  assumes ok: "cand_ok pix i (ci, cs)" and gt: "cs > 2"
  shows "decode_tokens (take i pix)
           [push_bit 2 (cs - 3) OR
              ucast (drop_bit 8 (((word_of_int (int i - uint ci) :: 16 word) - 1) AND 0x0300)),
            ucast (((word_of_int (int i - uint ci) :: 16 word) - 1) AND 0x00FF)]
         = Some (take (i + unat cs) pix)"
proof -
  have s3: "3 \<le> unat cs" using gt by (simp add: word_less_nat_alt)
  then have "(ci, cs) \<noteq> (0, 0)" by auto
  with ok obtain m where s33: "unat cs \<le> 33" and len: "i + 34 < length pix"
    and ci: "ci = word_of_nat m" and m: "m + 34 \<le> i" "i < m + 128"
    and eq: "\<forall>k \<le> unat cs. pix ! (m + k) = pix ! (i + k)"
    unfolding cand_ok_def by auto
  define x where "x = i - m - 1"
  have x: "x < 256" "x + 1 = i - m" using m by (simp_all add: x_def)
  have eo: "(word_of_int (int i - uint ci) :: 16 word) - 1 = word_of_nat x"
    unfolding ci x_def using m by (intro encodedOffset_eq) simp_all
  note xb = enc_offset_small[OF x(1)]
  note lb = enc_length_small[OF s3 s33]
  have ux: "unat (word_of_nat x :: 8 word) = x" using x(1) by (simp add: unat_of_nat8)
  have cb: "copy_back (unat cs) (i - m) (take i pix) = take (i + unat cs) pix"
  proof (rule copy_back_take)
    show "i - m \<le> i" by simp
    show "0 < i - m" using m by simp
    show "i + unat cs \<le> length pix" using s33 len by simp
    show "\<forall>k<unat cs. pix ! (i - (i - m) + k) = pix ! (i + k)"
      using eq m by simp
  qed
  have li: "length (take i pix) = i" using len by simp
  show ?thesis
    unfolding eo xb
    using lb ux x(2) cb li by (simp add: Let_def)
qed


lemma decode_literal_run:
  "bit h 7 \<Longrightarrow> unat (h AND 0x7F) + 1 = n \<Longrightarrow> length lits = n \<Longrightarrow>
   decode_tokens out (h # lits) = Some (out @ lits)"
  by (simp add: Let_def)

lemma literal_token_full:
  assumes "128 \<le> length pix - i"
  shows "decode_tokens (take i pix) (0xFF # take 128 (drop i pix)) = Some (take (i + 128) pix)"
proof -
  have "length (take 128 (drop i pix)) = 128" using assms by simp
  moreover have "bit (0xFF :: byte) 7" "unat ((0xFF :: byte) AND 0x7F) + 1 = 128" by simp_all
  ultimately show ?thesis by (simp add: take_add)
qed

lemma literal_token_rest:
  assumes "i < length pix" "\<not> 128 \<le> length pix - i"
  shows "decode_tokens (take i pix)
           ((0x80 OR word_of_nat (length pix - i - 1)) # take (length pix - i) (drop i pix))
         = Some (take (i + (length pix - i)) pix)"
proof -
  define l where "l = length pix - i"
  have l: "1 \<le> l" "l \<le> 128" using assms by (simp_all add: l_def)
  note hb = enc_literal_small[OF l]
  have "length (take l (drop i pix)) = l" by (simp add: l_def)
  with hb have "decode_tokens (take i pix) ((0x80 OR word_of_nat (l - 1)) # take l (drop i pix))
         = Some (take i pix @ take l (drop i pix))"
    by (rule decode_literal_run)
  then show ?thesis unfolding l_def by (simp only: take_add)
qed

lemma compress_loop_decode:
  "decode_tokens [] val = Some (take i pix) \<Longrightarrow>
   \<exists>out. compress_loop pix i val = Some out \<and> decode_tokens [] out = Some pix"
proof (induction pix i val rule: compress_loop.induct)
  case (1 pix i val)
  show ?case
  proof (cases "i < length pix")
    case False
    then have "compress_loop pix i val = Some val" "take i pix = pix"
      by (simp_all add: compress_loop.simps[of pix i val])
    then show ?thesis using "1.prems" by simp
  next
    case True
    from getLargestPrefix_spec[OF True] obtain ci cs
      where gp: "getLargestPrefix pix i = Some (ci, cs)" and ok: "cand_ok pix i (ci, cs)"
      by auto
    show ?thesis
    proof (cases "cs > 2")
      case gt: True
      define e0 where "e0 = push_bit 2 (cs - 3) OR
              ucast (drop_bit 8 (((word_of_int (int i - uint ci) :: 16 word) - 1) AND 0x0300))"
      define e1 :: byte where "e1 = ucast (((word_of_int (int i - uint ci) :: 16 word) - 1) AND 0x00FF)"
      have step: "compress_loop pix i val = compress_loop pix (i + unat cs) (val @ [e0, e1])"
        using True gp gt by (simp add: compress_loop.simps[of pix i val] Let_def e0_def e1_def)
      have "decode_tokens [] (val @ [e0, e1]) = decode_tokens (take i pix) [e0, e1]"
        using "1.prems" by (rule decode_tokens_append)
      also have "\<dots> = Some (take (i + unat cs) pix)"
        unfolding e0_def e1_def using ok gt by (rule backref_token)
      finally have "\<exists>out. compress_loop pix (i + unat cs) (val @ [e0, e1]) = Some out \<and>
          decode_tokens [] out = Some pix"
        using "1.IH"(1)[OF True gp refl gt refl refl refl refl]
        by (simp add: e0_def e1_def)
      then show ?thesis using step by simp
    next
      case le: False
      show ?thesis
      proof (cases "128 \<le> length pix - i")
        case big: True
        have step: "compress_loop pix i val
            = compress_loop pix (i + 128) ((val @ [0xFF]) @ take 128 (drop i pix))"
          using True gp le big by (simp add: compress_loop.simps[of pix i val] Let_def)
        have "decode_tokens [] (val @ (0xFF # take 128 (drop i pix)))
            = decode_tokens (take i pix) (0xFF # take 128 (drop i pix))"
          using "1.prems" by (rule decode_tokens_append)
        also have "\<dots> = Some (take (i + 128) pix)"
          using big by (rule literal_token_full)
        finally have "\<exists>out. compress_loop pix (i + 128) ((val @ [0xFF]) @ take 128 (drop i pix)) = Some out \<and>
            decode_tokens [] out = Some pix"
          using "1.IH"(2)[OF True gp refl le refl big] by simp
        then show ?thesis using step by simp
      next
        case small: False
        define left where "left = length pix - i"
        have step: "compress_loop pix i val
            = compress_loop pix (i + left) ((val @ [0x80 OR word_of_nat (left - 1)]) @ take left (drop i pix))"
          using True gp le small
          by (simp add: compress_loop.simps[of pix i val] Let_def left_def)
        have "decode_tokens [] (val @ ((0x80 OR word_of_nat (left - 1)) # take left (drop i pix)))
            = decode_tokens (take i pix) ((0x80 OR word_of_nat (left - 1)) # take left (drop i pix))"
          using "1.prems" by (rule decode_tokens_append)
        also have "\<dots> = Some (take (i + left) pix)"
          unfolding left_def using True small by (rule literal_token_rest)
        finally have "\<exists>out. compress_loop pix (i + left)
              ((val @ [0x80 OR word_of_nat (left - 1)]) @ take left (drop i pix)) = Some out \<and>
            decode_tokens [] out = Some pix"
          using "1.IH"(3)[OF True gp refl le left_def small[folded left_def]] by simp
        then show ?thesis using step by simp
      qed
    qed
  qed
qed

lemma compress_decodes: "\<exists>out. compress pix = Some out \<and> decode_tokens [] out = Some pix"
  unfolding compress_def by (rule compress_loop_decode) simp

lemma ceil128_pos: "0 < (L::nat) \<Longrightarrow> 1 \<le> (L + 127) div 128"
proof -
  assume "0 < L"
  then have "128 div 128 \<le> (L + 127) div (128::nat)" by (intro div_le_mono) simp
  then show ?thesis by simp
qed

lemma bound_backref:
  fixes n v L s :: nat
  assumes "n \<le> v + 2 + (L - s) + (L - s + 127) div 128" "3 \<le> s" "0 < L"
  shows "n \<le> v + L + (L + 127) div 128"
proof (cases "s \<le> L")
  case True
  have "(L - s + 127) div 128 \<le> (L + 127) div 128" by (intro div_le_mono) simp
  then show ?thesis using assms True by linarith
next
  case False
  then have "L - s = 0" by simp
  then have "n \<le> v + 2" using assms(1) by simp
  then show ?thesis using ceil128_pos[OF assms(3)] assms(3) by linarith
qed

lemma bound_literal_full:
  fixes n v L :: nat
  assumes "n \<le> v + 1 + 128 + (L - 128) + (L - 128 + 127) div 128" "128 \<le> L"
  shows "n \<le> v + L + (L + 127) div 128"
proof -
  define k where "k = L - 128"
  have L: "L = k + 128" using assms(2) by (simp add: k_def)
  have "(k + 127 + 128) div (128::nat) = (k + 127) div 128 + 1"
    by (rule div_add_self2) simp
  moreover have "k + 127 + 128 = L + 127" using L by simp
  ultimately have "(L + 127) div 128 = (k + 127) div 128 + 1" by simp
  then have "(L + 127) div 128 = (L - 128 + 127) div 128 + 1" unfolding k_def .
  then show ?thesis using assms by linarith
qed

lemma bound_literal_rest:
  fixes n v L :: nat
  assumes "n \<le> v + 1 + L" "0 < L"
  shows "n \<le> v + L + (L + 127) div 128"
  using assms ceil128_pos[OF assms(2)] by linarith

lemma compress_loop_length:
  "compress_loop pix i val = Some out \<Longrightarrow>
   length out \<le> length val + (length pix - i) + (length pix - i + 127) div 128"
proof (induction pix i val rule: compress_loop.induct)
  case (1 pix i val)
  show ?case
  proof (cases "i < length pix")
    case False
    then have "compress_loop pix i val = Some val"
      by (simp add: compress_loop.simps[of pix i val])
    then show ?thesis using "1.prems" by simp
  next
    case True
    from getLargestPrefix_spec[OF True] obtain ci cs
      where gp: "getLargestPrefix pix i = Some (ci, cs)"
      by auto
    show ?thesis
    proof (cases "cs > 2")
      case gt: True
      define e0 where "e0 = push_bit 2 (cs - 3) OR
              ucast (drop_bit 8 (((word_of_int (int i - uint ci) :: 16 word) - 1) AND 0x0300))"
      define e1 :: byte where "e1 = ucast (((word_of_int (int i - uint ci) :: 16 word) - 1) AND 0x00FF)"
      have s3: "3 \<le> unat cs" using gt by (simp add: word_less_nat_alt)
      have step: "compress_loop pix i val = compress_loop pix (i + unat cs) (val @ [e0, e1])"
        using True gp gt by (simp add: compress_loop.simps[of pix i val] Let_def e0_def e1_def)
      have "compress_loop pix (i + unat cs) (val @ [e0, e1]) = Some out"
        using "1.prems" unfolding step .
      then have "length out \<le> length (val @ [e0, e1]) + (length pix - (i + unat cs))
            + (length pix - (i + unat cs) + 127) div 128"
        using "1.IH"(1)[OF True gp refl gt refl refl refl refl]
        by (simp add: e0_def e1_def)
      then have "length out \<le> length val + 2 + (length pix - i - unat cs)
            + (length pix - i - unat cs + 127) div 128"
        by simp
      then show ?thesis
      proof (rule bound_backref)
        show "3 \<le> unat cs" by (rule s3)
        show "0 < length pix - i" using True by simp
      qed
    next
      case le: False
      show ?thesis
      proof (cases "128 \<le> length pix - i")
        case big: True
        have step: "compress_loop pix i val
            = compress_loop pix (i + 128) ((val @ [0xFF]) @ take 128 (drop i pix))"
          using True gp le big by (simp add: compress_loop.simps[of pix i val] Let_def)
        have "compress_loop pix (i + 128) ((val @ [0xFF]) @ take 128 (drop i pix)) = Some out"
          using "1.prems" unfolding step .
        then have "length out \<le> length ((val @ [0xFF]) @ take 128 (drop i pix))
            + (length pix - (i + 128)) + (length pix - (i + 128) + 127) div 128"
          using "1.IH"(2)[OF True gp refl le refl big] by simp
        then have "length out \<le> length val + 1 + 128 + (length pix - i - 128)
            + (length pix - i - 128 + 127) div 128"
          using big by simp
        then show ?thesis using big by (rule bound_literal_full)
      next
        case small: False
        define left where "left = length pix - i"
        have step: "compress_loop pix i val
            = compress_loop pix (i + left) ((val @ [0x80 OR word_of_nat (left - 1)]) @ take left (drop i pix))"
          using True gp le small
          by (simp add: compress_loop.simps[of pix i val] Let_def left_def)
        have "compress_loop pix (i + left)
            ((val @ [0x80 OR word_of_nat (left - 1)]) @ take left (drop i pix)) = Some out"
          using "1.prems" unfolding step .
        then have "length out \<le> length ((val @ [0x80 OR word_of_nat (left - 1)]) @ take left (drop i pix))
            + (length pix - (i + left)) + (length pix - (i + left) + 127) div 128"
          using "1.IH"(3)[OF True gp refl le left_def small[folded left_def]] by simp
        then have "length out \<le> length val + 1 + (length pix - i)"
          using True by (simp add: left_def)
        then show ?thesis
        proof (rule bound_literal_rest)
          show "0 < length pix - i" using True by simp
        qed
      qed
    qed
  qed
qed

lemma getLargestPrefix_outside:
  assumes "length pix \<le> idx"
  shows "getLargestPrefix pix idx = (if 34 \<le> idx then None else Some (0, 0))"
proof (cases "34 \<le> idx")
  case True
  then have "getLargestPrefix_outer pix idx (int idx - 34) (0, 0) = None"
    using assms by (simp add: getLargestPrefix_outer.simps[of pix idx "int idx - 34"])
  then show ?thesis using True by (simp add: getLargestPrefix_def)
next
  case False
  then have "getLargestPrefix_outer pix idx (int idx - 34) (0, 0) = Some (False, 0, 0)"
    by (simp add: getLargestPrefix_outer.simps[of pix idx "int idx - 34"])
  then show ?thesis using False by (simp add: getLargestPrefix_def)
qed

lemma inner_mono:
  assumes "j + length vals \<le> 34"
  shows "unat (snd c) \<le> unat (snd (snd (getLargestPrefix_inner pix i j vals c)))"
  using assms
proof (induction vals arbitrary: j c)
  case Nil
  then show ?case by (cases c) simp
next
  case (Cons val vals)
  obtain ci cs where c: "c = (ci, cs)" by (cases c)
  have j: "j < 34" using Cons.prems by simp
  define c' where "c' = (if j > unat cs then (word_of_nat i :: 16 word, word_of_nat j :: 8 word) else (ci, cs))"
  have up: "unat cs \<le> unat (snd c')" using j by (simp add: c'_def unat_of_nat8)
  have rec: "unat (snd c') \<le> unat (snd (snd (getLargestPrefix_inner pix i (Suc j) vals c')))"
    using Cons.prems by (intro Cons.IH) simp
  show ?case
    using up rec j unfolding c c'_def by (auto simp: Let_def)
qed

lemma inner_reaches:
  assumes "j + length vals \<le> 34" "j < n" "n \<le> j + length vals" "i + n \<le> length pix"
    and "\<forall>k < length vals. j + k < n \<longrightarrow> vals ! k = pix ! (i + j + k)"
  shows "n - 1 \<le> unat (snd (snd (getLargestPrefix_inner pix i j vals c)))"
  using assms
proof (induction vals arbitrary: j c)
  case Nil
  then show ?case by simp
next
  case (Cons val vals)
  obtain ci cs where c: "c = (ci, cs)" by (cases c)
  have j: "j < 34" using Cons.prems(1) by simp
  have inb: "i + j < length pix" using Cons.prems(2,4) by simp
  have val: "val = pix ! (i + j)" using Cons.prems(5)[rule_format, of 0] Cons.prems(2) by simp
  define c' where "c' = (if j > unat cs then (word_of_nat i :: 16 word, word_of_nat j :: 8 word) else (ci, cs))"
  have up: "j \<le> unat (snd c')" using j by (simp add: c'_def unat_of_nat8)
  show ?case
  proof (cases "snd c' = 34")
    case True
    then have "getLargestPrefix_inner pix i j (val # vals) c = (True, c')"
      using inb val unfolding c c'_def by (simp add: Let_def)
    moreover have "n \<le> 34" using Cons.prems(1,3) by simp
    ultimately show ?thesis using True by simp
  next
    case False
    then have step: "getLargestPrefix_inner pix i j (val # vals) c = getLargestPrefix_inner pix i (Suc j) vals c'"
      using inb val unfolding c c'_def by (simp add: Let_def)
    show ?thesis
    proof (cases "Suc j < n")
      case True
      have "n - 1 \<le> unat (snd (snd (getLargestPrefix_inner pix i (Suc j) vals c')))"
      proof (rule Cons.IH)
        show "Suc j + length vals \<le> 34" using Cons.prems(1) by simp
        show "Suc j < n" by fact
        show "n \<le> Suc j + length vals" using Cons.prems(3) by simp
        show "i + n \<le> length pix" by fact
        show "\<forall>k<length vals. Suc j + k < n \<longrightarrow> vals ! k = pix ! (i + Suc j + k)"
        proof (intro allI impI)
          fix k assume "k < length vals" "Suc j + k < n"
          then show "vals ! k = pix ! (i + Suc j + k)"
            using Cons.prems(5)[rule_format, of "Suc k"] by simp
        qed
      qed
      then show ?thesis using step by simp
    next
      case False
      then have "n - 1 = j" using Cons.prems(2) by simp
      moreover have "unat (snd c') \<le> unat (snd (snd (getLargestPrefix_inner pix i (Suc j) vals c')))"
        using Cons.prems(1) by (intro inner_mono) simp
      ultimately show ?thesis using step up by simp
    qed
  qed
qed

lemma outer_finds:
  assumes "cand_ok pix idx c" "i \<le> int idx - 34" "idx + 34 < length pix"
    and "3 \<le> unat (snd c) \<or>
         (\<exists>m. int m \<le> i \<and> idx < m + 128 \<and> (\<forall>k<4. pix ! (m + k) = pix ! (idx + k)))"
  shows "\<exists>c'. getLargestPrefix_outer pix idx i c = Some (False, c') \<and> 3 \<le> unat (snd c')"
  using assms
proof (induction pix idx i c rule: getLargestPrefix_outer.induct)
  case (1 pix idx i c)
  have idx: "idx < length pix" using "1.prems"(3) by simp
  show ?case
  proof (cases "i \<ge> 0 \<and> int idx - i < 128")
    case False
    then have "getLargestPrefix_outer pix idx i c = Some (False, c)"
      by (subst getLargestPrefix_outer.simps) (simp only: if_False)
    moreover have "3 \<le> unat (snd c)" using "1.prems"(4) False by auto
    ultimately show ?thesis by simp
  next
    case True
    then have inb: "nat i < length pix" "nat i + 34 \<le> idx" "idx < nat i + 128"
      using "1.prems"(2) idx by auto
    show ?thesis
    proof (cases "pix ! nat i = pix ! idx")
      case False
      have step: "getLargestPrefix_outer pix idx i c = getLargestPrefix_outer pix idx (i - 1) c"
        using True False inb idx by (simp add: getLargestPrefix_outer.simps[of pix idx i c])
      have next4: "3 \<le> unat (snd c) \<or>
         (\<exists>m. int m \<le> i - 1 \<and> idx < m + 128 \<and> (\<forall>k<4. pix ! (m + k) = pix ! (idx + k)))"
      proof (cases "3 \<le> unat (snd c)")
        case True
        then show ?thesis by simp
      next
        case no: False
        with "1.prems"(4) obtain m where m: "int m \<le> i" "idx < m + 128"
          "\<forall>k<4. pix ! (m + k) = pix ! (idx + k)" by auto
        from m(3) have "pix ! m = pix ! idx" by (auto dest: spec[of _ 0])
        with False have "m \<noteq> nat i" by auto
        with m(1) True have "int m \<le> i - 1" by auto
        with m show ?thesis by blast
      qed
      have "\<exists>c'. getLargestPrefix_outer pix idx (i - 1) c = Some (False, c') \<and> 3 \<le> unat (snd c')"
        using "1.prems"(1,2,3) next4 idx inb True False
        by (intro "1.IH"(2)) simp_all
      then show ?thesis using step by simp
    next
      case eq: True
      have lt: "\<not> idx + 34 \<ge> length pix" using "1.prems"(3) by simp
      obtain c' where in1: "getLargestPrefix_inner pix (nat i) 0 (take 34 (drop idx pix)) c = (False, c')"
        and ok': "cand_ok pix idx c'"
        using inner_keeps[OF "1.prems"(1) inb(2,3) "1.prems"(3), of "take 34 (drop idx pix)" 0] by auto
      have step: "getLargestPrefix_outer pix idx i c = getLargestPrefix_outer pix idx (i - 1) c'"
        using True eq inb idx lt in1 by (simp add: getLargestPrefix_outer.simps[of pix idx i c])
      have mono: "unat (snd c) \<le> unat (snd c')"
        using inner_mono[of 0 "take 34 (drop idx pix)" c pix "nat i"] in1 by simp
      have next4: "3 \<le> unat (snd c') \<or>
         (\<exists>m. int m \<le> i - 1 \<and> idx < m + 128 \<and> (\<forall>k<4. pix ! (m + k) = pix ! (idx + k)))"
      proof (cases "3 \<le> unat (snd c)")
        case True
        then show ?thesis using mono by simp
      next
        case no: False
        with "1.prems"(4) obtain m where m: "int m \<le> i" "idx < m + 128"
          "\<forall>k<4. pix ! (m + k) = pix ! (idx + k)" by auto
        show ?thesis
        proof (cases "m = nat i")
          case True
          have "4 - 1 \<le> unat (snd (snd (getLargestPrefix_inner pix (nat i) 0 (take 34 (drop idx pix)) c)))"
          proof (rule inner_reaches)
            show "0 + length (take 34 (drop idx pix)) \<le> 34" by simp
            show "(0::nat) < 4" by simp
            show "4 \<le> 0 + length (take 34 (drop idx pix))" using "1.prems"(3) by simp
            show "nat i + 4 \<le> length pix" using inb "1.prems"(3) by simp
            show "\<forall>k<length (take 34 (drop idx pix)). 0 + k < 4 \<longrightarrow>
                    take 34 (drop idx pix) ! k = pix ! (nat i + 0 + k)"
              using m(3) True "1.prems"(3) by simp
          qed
          then show ?thesis using in1 by simp
        next
          case False
          with m(1) \<open>i \<ge> 0 \<and> int idx - i < 128\<close> have "int m \<le> i - 1" by auto
          with m show ?thesis by blast
        qed
      qed
      have "\<exists>c''. getLargestPrefix_outer pix idx (i - 1) c' = Some (False, c'') \<and> 3 \<le> unat (snd c'')"
        using "1.IH"(1)[OF True _ eq _ in1[symmetric] refl ok' _ "1.prems"(3) next4] inb idx lt "1.prems"(2)
        by simp
      then show ?thesis using step by simp
    qed
  qed
qed

lemma searched_match_found:
  assumes "searched_match pix idx 4"
  shows "\<exists>ci cs. getLargestPrefix pix idx = Some (ci, cs) \<and> 3 \<le> unat cs"
proof -
  from assms obtain m where len: "idx + 34 < length pix"
    and m: "m \<in> set [idx - 127 ..< idx - 33]"
    and eq: "take 4 (drop m pix) = take 4 (drop idx pix)"
    unfolding searched_match_def by blast
  from m have mr: "m + 34 \<le> idx" "idx < m + 128" by (simp_all only: set_upt) auto
  have eq4: "\<forall>k<4. pix ! (m + k) = pix ! (idx + k)"
  proof (intro allI impI)
    fix k :: nat assume k: "k < 4"
    have "take 4 (drop m pix) ! k = take 4 (drop idx pix) ! k" using eq by simp
    then show "pix ! (m + k) = pix ! (idx + k)" using k len mr by simp
  qed
  have "cand_ok pix idx (0, 0)" by (simp add: cand_ok_def)
  moreover have "int idx - 34 \<le> int idx - 34" by simp
  moreover note len
  moreover have "3 \<le> unat (snd (0 :: 16 word, 0 :: 8 word)) \<or>
         (\<exists>m. int m \<le> int idx - 34 \<and> idx < m + 128 \<and> (\<forall>k<4. pix ! (m + k) = pix ! (idx + k)))"
    using mr eq4 by (intro disjI2 exI[of _ m]) auto
  ultimately obtain c' where o: "getLargestPrefix_outer pix idx (int idx - 34) (0, 0) = Some (False, c')"
    and sz: "3 \<le> unat (snd c')"
    using outer_finds[of pix idx "(0, 0)" "int idx - 34"] by blast
  from sz have "snd c' > 2" by (simp add: word_less_nat_alt)
  then have "getLargestPrefix pix idx = Some c'"
    using o by (cases c') (simp add: getLargestPrefix_def)
  then show ?thesis using sz by (cases c') auto
qed

lemma cand_ok_searched:
  assumes "cand_ok pix idx (ci, cs)" "3 \<le> unat cs"
  shows "searched_match pix idx 3"
proof -
  from assms have "(ci, cs) \<noteq> (0, 0)" by auto
  with assms(1) obtain m where len: "idx + 34 < length pix"
    and m: "m + 34 \<le> idx" "idx < m + 128"
    and eq: "\<forall>k \<le> unat cs. pix ! (m + k) = pix ! (idx + k)"
    unfolding cand_ok_def by auto
  have "take 3 (drop m pix) = take 3 (drop idx pix)"
  proof (rule nth_equalityI)
    show "length (take 3 (drop m pix)) = length (take 3 (drop idx pix))"
      using len m by simp
  next
    fix k assume "k < length (take 3 (drop m pix))"
    then have k: "k < 3" by simp
    then have "pix ! (m + k) = pix ! (idx + k)" using eq assms(2) by simp
    then show "take 3 (drop m pix) ! k = take 3 (drop idx pix) ! k"
      using k len m by simp
  qed
  moreover have "m \<in> set [idx - 127 ..< idx - 33]" using m by (simp only: set_upt) auto
  ultimately show ?thesis using len unfolding searched_match_def by blast
qed

lemma searched_match_window:
  assumes "searched_match pix idx 3"
  shows "match_in_window pix idx"
proof -
  from assms obtain m where len: "idx + 34 < length pix"
    and m: "m \<in> set [idx - 127 ..< idx - 33]"
    and eq: "take 3 (drop m pix) = take 3 (drop idx pix)"
    unfolding searched_match_def by blast
  from m have "m \<in> set [idx - 128 ..< idx]" by (simp only: set_upt) auto
  moreover have "(3::nat) \<in> set [3 ..< 35]" by (simp only: set_upt) simp
  moreover have "idx + 3 \<le> length pix" using len by simp
  ultimately show ?thesis using eq unfolding match_in_window_def by blast
qed

section \<open>Codec: the claims\<close>

text \<open>
  Claim C2. For every input byte string \<open>pix\<close>, \<open>compress\<close> returns, and decoding its
  output by the token grammar (back-reference tokens with a 5-bit length minus 3 and a
  10-bit distance minus 1, literal runs with a 7-bit run length minus 1) reconstructs
  \<open>pix\<close> exactly.
\<close>

theorem compress_roundtrip:
  "\<exists>out. compress pix = Some out \<and> decode_tokens [] out = Some pix"
  by (rule compress_decodes)

theorem compress_roundtrip_witness:
  "compress (replicate 94 1 @ replicate 69 0)
     = Some (255 # replicate 94 1 @ replicate 34 0 @ [120, 33, 129, 0, 0]) \<and>
   decode_tokens [] (255 # replicate 94 1 @ replicate 34 0 @ [120, 33, 129, 0, 0])
     = Some (replicate 94 1 @ replicate 69 0)"
proof -
  have c: "compress (replicate 94 1 @ replicate 69 0)
     = Some (255 # replicate 94 1 @ replicate 34 0 @ [120, 33, 129, 0, 0])"
    by code_simp
  with compress_roundtrip[of "replicate 94 1 @ replicate 69 0"] show ?thesis by simp
qed

text \<open>
  Claim C3, as amended. For every byte string and position, \<open>getLargestPrefix\<close> never
  returns a length outside \<open>{0} \<union> [3, 34]\<close>, and at a position inside the string it
  returns. The sentinel is tied to the part of the window that the loop searches (34 to
  127 bytes back, with more than 34 bytes following the position), not to the whole
  128-byte window: \<open>(0, 0)\<close> is returned when that part holds no match of length at
  least 3, hence also when the whole window holds none; and \<open>(0, 0)\<close> is not returned
  when that part holds a match of length at least 4. A longest match of exactly 3 bytes
  in the searched part is not covered by this statement.
\<close>

theorem getLargestPrefix_window:
  "(\<forall>ci cs. getLargestPrefix pix idx = Some (ci, cs) \<longrightarrow>
       unat cs = 0 \<or> (3 \<le> unat cs \<and> unat cs \<le> 34)) \<and>
   (idx < length pix \<longrightarrow>
       (\<exists>r. getLargestPrefix pix idx = Some r) \<and>
       (\<not> searched_match pix idx 3 \<longrightarrow> getLargestPrefix pix idx = Some (0, 0)) \<and>
       (\<not> match_in_window pix idx \<longrightarrow> getLargestPrefix pix idx = Some (0, 0)) \<and>
       (searched_match pix idx 4 \<longrightarrow> getLargestPrefix pix idx \<noteq> Some (0, 0)))"
proof (cases "idx < length pix")
  case False
  then show ?thesis using getLargestPrefix_outside[of pix idx] by (auto split: if_splits)
next
  case True
  from getLargestPrefix_spec[OF True] obtain ci cs
    where gp: "getLargestPrefix pix idx = Some (ci, cs)" and ok: "cand_ok pix idx (ci, cs)"
      and alt: "cs > 2 \<or> (ci, cs) = (0, 0)"
    by auto
  have range: "unat cs = 0 \<or> (3 \<le> unat cs \<and> unat cs \<le> 34)"
  proof (cases "cs > 2")
    case True
    then have "3 \<le> unat cs" by (simp add: word_less_nat_alt)
    moreover have "unat cs \<le> 33" using ok True unfolding cand_ok_def by auto
    ultimately show ?thesis by simp
  next
    case False
    then show ?thesis using alt by simp
  qed
  have none: "getLargestPrefix pix idx = Some (0, 0)" if "\<not> searched_match pix idx 3"
  proof (rule ccontr)
    assume "getLargestPrefix pix idx \<noteq> Some (0, 0)"
    then have "(ci, cs) \<noteq> (0, 0)" using gp by simp
    then have "cs > 2" using alt by auto
    then have "3 \<le> unat cs" by (simp add: word_less_nat_alt)
    then have "searched_match pix idx 3" using ok by (rule cand_ok_searched[rotated])
    with that show False by simp
  qed
  have none': "getLargestPrefix pix idx = Some (0, 0)" if "\<not> match_in_window pix idx"
    using that none searched_match_window by blast
  have some: "getLargestPrefix pix idx \<noteq> Some (0, 0)" if "searched_match pix idx 4"
    using searched_match_found[OF that] by auto
  show ?thesis using gp range True none none' some by simp
qed

theorem getLargestPrefix_window_witness:
  "36 < length (map word_of_nat [0..<80] :: byte list) \<and>
   \<not> searched_match (map word_of_nat [0..<80]) 36 3 \<and>
   \<not> match_in_window (map word_of_nat [0..<80]) 36 \<and>
   getLargestPrefix (map word_of_nat [0..<80]) 36 = Some (0, 0) \<and>
   35 < length (replicate 70 0 :: byte list) \<and>
   searched_match (replicate 70 0) 35 4 \<and>
   getLargestPrefix (replicate 70 0) 35 = Some (1, 33) \<and>
   getLargestPrefix (replicate 70 0) 35 \<noteq> Some (0, 0) \<and> unat (33 :: 8 word) \<le> 34"
proof -
  have a: "36 < length (map word_of_nat [0..<80] :: byte list)" by simp
  have b: "\<not> searched_match (map word_of_nat [0..<80]) 36 3" by code_simp
  have b': "\<not> match_in_window (map word_of_nat [0..<80]) 36" by code_simp
  have c: "getLargestPrefix (replicate 70 0) 35 = Some (1, 33)" by code_simp
  have d: "searched_match (replicate 70 0) 35 4" by code_simp
  have e: "35 < length (replicate 70 0 :: byte list)" by simp
  from getLargestPrefix_window[of "map word_of_nat [0..<80]" 36] a b
  have "getLargestPrefix (map word_of_nat [0..<80]) 36 = Some (0, 0)" by blast
  moreover from getLargestPrefix_window[of "replicate 70 0" 35] c d e
  have "unat (33 :: 8 word) \<le> 34 \<and> getLargestPrefix (replicate 70 0) 35 \<noteq> Some (0, 0)" by simp
  ultimately show ?thesis using a b b' c d e by simp
qed

text \<open>
  The claim as stated has "if and only if" for the whole window. With six equal bytes and
  position 3 the three bytes at 0 match the three bytes at 3, yet the search starts 34
  bytes back and returns the sentinel.
\<close>

theorem getLargestPrefix_sentinel_counterexample:
  "getLargestPrefix (replicate 6 0) 3 = Some (0, 0) \<and> match_in_window (replicate 6 0) 3"
  by code_simp

text \<open>
  Inside the searched part the sentinel also comes back for a longest match of exactly 3
  bytes: \<open>candidateSize\<close> takes the index \<open>j\<close> of the last equal byte, one less than the
  number of equal bytes, so three equal bytes leave it at 2 and \<open>candidateSize > 2\<close>
  fails. The doc comment of the function ("If it doesn't find a prefix of at least size
  3, it will claim it couldn't find any") has a match of 3 bytes reported; the length
  34, which it also names, is never returned. Here the bytes 0, 1, 2 at position 40
  repeat the bytes at position 0 and the fourth byte differs.
\<close>

lemma getLargestPrefix_three_bytes_unreported:
  "searched_match (map word_of_nat [0..<40] @ [0, 1, 2, 77] @ map word_of_nat [100..<140]) 40 3 \<and>
   getLargestPrefix (map word_of_nat [0..<40] @ [0, 1, 2, 77] @ map word_of_nat [100..<140]) 40
     = Some (0, 0)"
  by code_simp

text \<open>
  Claim C10. For every input byte string \<open>pix\<close>, \<open>compress\<close> returns an output of at most
  \<open>len(pix) + \<lceil>len(pix) / 128\<rceil>\<close> bytes: a back-reference spends two bytes on at least
  three bytes of input, a literal run adds one header byte to at most 128 bytes.
\<close>

theorem compress_bound:
  "\<exists>out. compress pix = Some out \<and> length out \<le> length pix + (length pix + 127) div 128"
proof -
  obtain out where out: "compress pix = Some out" using compress_decodes by blast
  then have "length out \<le> length ([] :: byte list) + (length pix - 0) + (length pix - 0 + 127) div 128"
    unfolding compress_def by (rule compress_loop_length)
  with out show ?thesis by simp
qed

theorem compress_bound_witness:
  "compress (replicate 3 7) = Some [130, 7, 7, 7] \<and>
   length [130 :: byte, 7, 7, 7] \<le> length (replicate 3 (7 :: byte)) + (length (replicate 3 (7 :: byte)) + 127) div 128"
proof -
  have c: "compress (replicate 3 7) = Some [130, 7, 7, 7]" by code_simp
  with compress_bound[of "replicate 3 7"] show ?thesis by simp
qed

section \<open>ProtocolClient: allocation\<close>

lemma replicate_50: "replicate 50 (0::byte) = [0,0,0,0,0,0,0,0,0,0, 0,0,0,0,0,0,0,0,0,0, 0,0,0,0,0,0,0,0,0,0, 0,0,0,0,0,0,0,0,0,0, 0,0,0,0,0,0,0,0,0,0]"
  by (simp add: numeral_eq_Suc)

lemma AllocBuffer_eq:
  "AllocBuffer d refresh repl r clipr color =
     (nextId d + 1,
      d\<lparr>nextId := nextId d + 1,
        data_written := data_written d @
          [98 # b_payload (nextId d + 1) refresh repl r clipr color]\<rparr>)"
  by (simp add: AllocBuffer_def PutUint32_def sendMessage_def le32_def rect_bytes_def
      color_bytes_def b_payload_def Let_def replicate_50)

lemma le32_unat:
  "map unat (le32 v) =
     [unat v mod 256, unat v div 256 mod 256, unat v div 65536 mod 256, unat v div 16777216 mod 256]"
  by (simp add: le32_def unsigned_ucast_eq unat_drop_bit_eq drop_bit_eq_div take_bit_eq_mod unat_div)

lemma length_b_payload: "length (b_payload newId refresh repl r clipr color) = 50"
  by (simp add: b_payload_def rect_bytes_def le32_def color_bytes_def)

lemma nextId_FreeID: "nextId (FreeID d i) = nextId d"
  by (simp add: FreeID_def sendMessage_def Let_def)

lemma session_alloc:
  "fst (session (AllocBufferCall refresh repl r clipr color # calls) d) =
     fst (AllocBuffer d refresh repl r clipr color) #
     fst (session calls (snd (AllocBuffer d refresh repl r clipr color)))"
  by (simp split: prod.splits)

lemma session_ids:
  "fst (session calls d) = map (\<lambda>k. nextId d + 1 + word_of_nat k) [0..<length (filter is_alloc calls)]"
proof (induction calls d rule: session.induct)
  case (1 d)
  then show ?case by simp
next
  case (2 refresh repl r clipr color calls d)
  let ?d' = "snd (AllocBuffer d refresh repl r clipr color)"
  let ?n = "length (filter is_alloc calls)"
  have n: "nextId ?d' = nextId d + 1" and f: "fst (AllocBuffer d refresh repl r clipr color) = nextId d + 1"
    by (simp_all add: AllocBuffer_eq)
  have "fst (session calls ?d') = map (\<lambda>k. nextId ?d' + 1 + word_of_nat k) [0..<?n]"
    using "2.IH"[of "fst (AllocBuffer d refresh repl r clipr color)" ?d'] by simp
  then have "fst (session (AllocBufferCall refresh repl r clipr color # calls) d)
     = (nextId d + 1) # map (\<lambda>k. nextId d + 1 + 1 + word_of_nat k) [0..<?n]"
    unfolding session_alloc f n by simp
  also have "map (\<lambda>k. nextId d + 1 + 1 + word_of_nat k) [0..<?n]
     = map (\<lambda>k. nextId d + 1 + word_of_nat k) (map Suc [0..<?n])"
    by (simp add: ac_simps)
  also have "(nextId d + 1) # map (\<lambda>k. nextId d + 1 + word_of_nat k) (map Suc [0..<?n])
     = map (\<lambda>k. nextId d + 1 + word_of_nat k) [0..<Suc ?n]"
    unfolding map_Suc_upt by (simp add: upt_conv_Cons del: upt_Suc)
  finally show ?case by simp
next
  case (3 ident calls d)
  then show ?case by (simp add: nextId_FreeID)
qed

lemma unat_issued:
  assumes "unat (w :: 32 word) + 1 + k < 2 ^ 32"
  shows "unat (w + 1 + word_of_nat k) = unat w + 1 + k"
proof -
  have "w + 1 + word_of_nat k = word_of_nat (unat w + 1 + k)" by simp
  then have "unat (w + 1 + word_of_nat k) = (unat w + 1 + k) mod 2 ^ 32"
    by (simp only: unat_of_nat) simp
  then show ?thesis using assms by simp
qed

lemma issued_increasing:
  assumes "unat (w :: 32 word) + n < 2 ^ 32"
  shows "sorted_wrt (<) (map (\<lambda>k. w + 1 + word_of_nat k) [0..<n])"
    and "\<forall>i \<in> set (map (\<lambda>k. w + 1 + word_of_nat k) [0..<n]). w \<le> i"
proof -
  have u: "unat (w + 1 + word_of_nat k) = unat w + 1 + k" if "k < n" for k
    using that assms by (intro unat_issued) simp
  show "sorted_wrt (<) (map (\<lambda>k. w + 1 + word_of_nat k) [0..<n])"
    unfolding sorted_wrt_iff_nth_less
  proof (intro allI impI)
    fix i j assume "i < j" "j < length (map (\<lambda>k. w + 1 + word_of_nat k) [0..<n])"
    then have ij: "i < n" "j < n" by simp_all
    then have "unat (w + 1 + word_of_nat i) < unat (w + 1 + word_of_nat j)"
      using u \<open>i < j\<close> by simp
    then show "map (\<lambda>k. w + 1 + word_of_nat k) [0..<n] ! i < map (\<lambda>k. w + 1 + word_of_nat k) [0..<n] ! j"
      using ij by (simp add: word_less_nat_alt)
  qed
  show "\<forall>i \<in> set (map (\<lambda>k. w + 1 + word_of_nat k) [0..<n]). w \<le> i"
  proof
    fix i assume "i \<in> set (map (\<lambda>k. w + 1 + word_of_nat k) [0..<n])"
    then obtain k where k: "k < n" "i = w + 1 + word_of_nat k" by auto
    then have "unat w \<le> unat i" using u by simp
    then show "w \<le> i" by (simp add: word_le_nat_alt)
  qed
qed

lemma strictly_sorted_distinct: "sorted_wrt (<) (xs :: 32 word list) \<Longrightarrow> distinct xs"
  by (induction xs) auto


text \<open>
  Claim C9, as amended. Every \<open>'b'\<close> message sent by \<open>AllocBuffer\<close> carries, after the
  command byte, a payload of 50 bytes laid out as
  \<open>newId(4) screenId(4, always zero) refresh(1) channelFormat(4) repl(1) bounds(4\<times>4)
  clip(4\<times>4) color(4)\<close>, the fields at consecutive offsets and the 32-bit integer fields
  little-endian.
\<close>

theorem AllocBuffer_layout:
  "data_written (snd (AllocBuffer d refresh repl r clipr color)) =
     data_written d @
       [98 # b_payload (fst (AllocBuffer d refresh repl r clipr color)) refresh repl r clipr color] \<and>
   b_payload newId refresh repl r clipr color =
     le32 newId @ [0, 0, 0, 0] @ [refresh] @ [8, 24, 40, 72] @ [if repl then 1 else 0] @
     rect_bytes r @ rect_bytes clipr @ color_bytes color \<and>
   length (b_payload newId refresh repl r clipr color) = 50 \<and>
   length (le32 newId) = 4 \<and> length (rect_bytes r) = 16 \<and> length (color_bytes color) = 4 \<and>
   map unat (le32 v) =
     [unat v mod 256, unat v div 256 mod 256, unat v div 65536 mod 256, unat v div 16777216 mod 256]"
  by (simp add: AllocBuffer_eq length_b_payload le32_unat)
     (simp add: b_payload_def rect_bytes_def le32_def color_bytes_def)


theorem AllocBuffer_layout_witness:
  "data_written (snd (AllocBuffer (NewDrawCtrler 1 1000 []) 7 True
      \<lparr>Min_pt = \<lparr>X = 1, Y = 2\<rparr>, Max_pt = \<lparr>X = 259, Y = 4\<rparr>\<rparr>
      \<lparr>Min_pt = \<lparr>X = 5, Y = 6\<rparr>, Max_pt = \<lparr>X = 7, Y = 8\<rparr>\<rparr>
      \<lparr>red = 0x1100, green = 0x2200, blue = 0x3300, alpha = 0xFF00\<rparr>)) =
   [[98, 3, 0, 0, 0, 0, 0, 0, 0, 7, 8, 24, 40, 72, 1,
     1, 0, 0, 0, 2, 0, 0, 0, 3, 1, 0, 0, 4, 0, 0, 0,
     5, 0, 0, 0, 6, 0, 0, 0, 7, 0, 0, 0, 8, 0, 0, 0,
     0xFF, 0x33, 0x22, 0x11]]"
proof -
  have f: "fst (AllocBuffer (NewDrawCtrler 1 1000 []) 7 True
      \<lparr>Min_pt = \<lparr>X = 1, Y = 2\<rparr>, Max_pt = \<lparr>X = 259, Y = 4\<rparr>\<rparr>
      \<lparr>Min_pt = \<lparr>X = 5, Y = 6\<rparr>, Max_pt = \<lparr>X = 7, Y = 8\<rparr>\<rparr>
      \<lparr>red = 0x1100, green = 0x2200, blue = 0x3300, alpha = 0xFF00\<rparr>) = 3"
    by (simp add: AllocBuffer_eq NewDrawCtrler_def)
  have "data_written (NewDrawCtrler 1 1000 []) = []" by (simp add: NewDrawCtrler_def)
  with AllocBuffer_layout[of "NewDrawCtrler 1 1000 []" 7 True
      "\<lparr>Min_pt = \<lparr>X = 1, Y = 2\<rparr>, Max_pt = \<lparr>X = 259, Y = 4\<rparr>\<rparr>"
      "\<lparr>Min_pt = \<lparr>X = 5, Y = 6\<rparr>, Max_pt = \<lparr>X = 7, Y = 8\<rparr>\<rparr>"
      "\<lparr>red = 0x1100, green = 0x2200, blue = 0x3300, alpha = 0xFF00\<rparr>" 3] f
  show ?thesis by (simp add: rect_bytes_def le32_def color_bytes_def)
qed


text \<open>
  The claim as stated has 46 payload bytes, the refresh byte right after the id. The
  message sent differs from that layout and is four bytes longer.
\<close>

theorem AllocBuffer_layout_counterexample:
  "data_written (snd (AllocBuffer (NewDrawCtrler 1 1000 []) 7 True
      \<lparr>Min_pt = \<lparr>X = 1, Y = 2\<rparr>, Max_pt = \<lparr>X = 259, Y = 4\<rparr>\<rparr>
      \<lparr>Min_pt = \<lparr>X = 5, Y = 6\<rparr>, Max_pt = \<lparr>X = 7, Y = 8\<rparr>\<rparr>
      \<lparr>red = 0x1100, green = 0x2200, blue = 0x3300, alpha = 0xFF00\<rparr>)) \<noteq>
   [98 # b_payload_table 3 7 True
      \<lparr>Min_pt = \<lparr>X = 1, Y = 2\<rparr>, Max_pt = \<lparr>X = 259, Y = 4\<rparr>\<rparr>
      \<lparr>Min_pt = \<lparr>X = 5, Y = 6\<rparr>, Max_pt = \<lparr>X = 7, Y = 8\<rparr>\<rparr>
      \<lparr>red = 0x1100, green = 0x2200, blue = 0x3300, alpha = 0xFF00\<rparr>] \<and>
   map length (data_written (snd (AllocBuffer (NewDrawCtrler 1 1000 []) 7 True
      \<lparr>Min_pt = \<lparr>X = 1, Y = 2\<rparr>, Max_pt = \<lparr>X = 259, Y = 4\<rparr>\<rparr>
      \<lparr>Min_pt = \<lparr>X = 5, Y = 6\<rparr>, Max_pt = \<lparr>X = 7, Y = 8\<rparr>\<rparr>
      \<lparr>red = 0x1100, green = 0x2200, blue = 0x3300, alpha = 0xFF00\<rparr>))) = [51] \<and>
   length (98 # b_payload_table 3 7 True
      \<lparr>Min_pt = \<lparr>X = 1, Y = 2\<rparr>, Max_pt = \<lparr>X = 259, Y = 4\<rparr>\<rparr>
      \<lparr>Min_pt = \<lparr>X = 5, Y = 6\<rparr>, Max_pt = \<lparr>X = 7, Y = 8\<rparr>\<rparr>
      \<lparr>red = 0x1100, green = 0x2200, blue = 0x3300, alpha = 0xFF00\<rparr>) = 47"
  by (simp add: AllocBuffer_eq NewDrawCtrler_def b_payload_def b_payload_table_def rect_bytes_def
      le32_def color_bytes_def)

text \<open>
  Claim C5, as amended. For every sequence of \<open>AllocBuffer\<close> and \<open>FreeID\<close> calls during
  which the 32-bit counter does not wrap around, every \<open>AllocBuffer\<close> call returns an id
  that is not below the counter at the start and is strictly greater than all ids
  issued before it, so no id is issued twice; there is one id for each \<open>AllocBuffer\<close>
  call, and \<open>FreeID\<close> calls do not change this (freed ids are not recycled). Which id
  is the first is not part of this statement.
\<close>

theorem AllocBuffer_ids_increase:
  assumes "unat (nextId d) + length (filter is_alloc calls) < 2 ^ 32"
  shows "sorted_wrt (<) (fst (session calls d)) \<and> distinct (fst (session calls d)) \<and>
         (\<forall>i \<in> set (fst (session calls d)). nextId d \<le> i) \<and>
         length (fst (session calls d)) = length (filter is_alloc calls)"
  unfolding session_ids
  using issued_increasing[OF assms] strictly_sorted_distinct by simp


theorem AllocBuffer_ids_increase_witness:
  "fst (session [AllocBufferCall 0 False \<lparr>Min_pt = ZP, Max_pt = \<lparr>X = 4, Y = 4\<rparr>\<rparr>
                   \<lparr>Min_pt = ZP, Max_pt = \<lparr>X = 4, Y = 4\<rparr>\<rparr> \<lparr>red = 0, green = 0, blue = 0, alpha = 0\<rparr>,
                 FreeIDCall 3,
                 AllocBufferCall 0 True \<lparr>Min_pt = ZP, Max_pt = \<lparr>X = 1, Y = 1\<rparr>\<rparr>
                   \<lparr>Min_pt = ZP, Max_pt = \<lparr>X = 4, Y = 4\<rparr>\<rparr> \<lparr>red = 0, green = 0, blue = 0, alpha = 65535\<rparr>]
          (NewDrawCtrler 1 1000 [])) = [3, 4] \<and>
   sorted_wrt (<) [3, 4 :: 32 word] \<and> distinct [3, 4 :: 32 word] \<and>
   nextId (NewDrawCtrler 1 1000 []) \<le> 3 \<and> nextId (NewDrawCtrler 1 1000 []) \<le> 4"
proof -
  let ?calls = "[AllocBufferCall 0 False \<lparr>Min_pt = ZP, Max_pt = \<lparr>X = 4, Y = 4\<rparr>\<rparr>
                   \<lparr>Min_pt = ZP, Max_pt = \<lparr>X = 4, Y = 4\<rparr>\<rparr> \<lparr>red = 0, green = 0, blue = 0, alpha = 0\<rparr>,
                 FreeIDCall 3,
                 AllocBufferCall 0 True \<lparr>Min_pt = ZP, Max_pt = \<lparr>X = 1, Y = 1\<rparr>\<rparr>
                   \<lparr>Min_pt = ZP, Max_pt = \<lparr>X = 4, Y = 4\<rparr>\<rparr> \<lparr>red = 0, green = 0, blue = 0, alpha = 65535\<rparr>]"
  have ids: "fst (session ?calls (NewDrawCtrler 1 1000 [])) = [3, 4]"
    by (simp add: AllocBuffer_eq FreeID_def sendMessage_def NewDrawCtrler_def Let_def)
  have "unat (nextId (NewDrawCtrler 1 1000 [])) + length (filter is_alloc ?calls) < 2 ^ 32"
    by (simp add: NewDrawCtrler_def)
  from AllocBuffer_ids_increase[OF this] ids show ?thesis by simp
qed


text \<open>
  The claim as stated speaks of any sequence of calls. The counter has 32 bits and is
  incremented without a test, so the allocation that follows \<open>2^32\<close> others returns
  the id of the first one again.
\<close>

theorem AllocBuffer_ids_counterexample:
  "fst (session (replicate 4294967297
          (AllocBufferCall 0 False \<lparr>Min_pt = ZP, Max_pt = ZP\<rparr> \<lparr>Min_pt = ZP, Max_pt = ZP\<rparr>
             \<lparr>red = 0, green = 0, blue = 0, alpha = 0\<rparr>))
        (NewDrawCtrler 1 1000 [])) ! 4294967296 =
   fst (session (replicate 4294967297
          (AllocBufferCall 0 False \<lparr>Min_pt = ZP, Max_pt = ZP\<rparr> \<lparr>Min_pt = ZP, Max_pt = ZP\<rparr>
             \<lparr>red = 0, green = 0, blue = 0, alpha = 0\<rparr>))
        (NewDrawCtrler 1 1000 [])) ! 0"
proof -
  let ?c = "AllocBufferCall 0 False \<lparr>Min_pt = ZP, Max_pt = ZP\<rparr> \<lparr>Min_pt = ZP, Max_pt = ZP\<rparr>
             \<lparr>red = 0, green = 0, blue = 0, alpha = 0\<rparr>"
  let ?n = "4294967297 :: nat"
  have len: "length (filter is_alloc (replicate ?n ?c)) = ?n"
    by (simp only: filter_replicate is_alloc.simps if_True length_replicate)
  have nid: "nextId (NewDrawCtrler 1 1000 []) = 2" by (simp add: NewDrawCtrler_def)
  have ids: "fst (session (replicate ?n ?c) (NewDrawCtrler 1 1000 []))
      = map (\<lambda>k. 2 + 1 + word_of_nat k) [0..<?n]"
    by (simp only: session_ids len nid)
  have a: "map (\<lambda>k. (2 :: 32 word) + 1 + word_of_nat k) [0..<?n] ! 0 = 2 + 1 + word_of_nat 0"
    by (subst nth_map) (simp_all only: length_upt nth_upt, simp_all)
  have b: "map (\<lambda>k. (2 :: 32 word) + 1 + word_of_nat k) [0..<?n] ! 4294967296 = 2 + 1 + word_of_nat 4294967296"
    by (subst nth_map) (simp_all only: length_upt nth_upt, simp_all)
  have c: "(2 :: 32 word) + 1 + word_of_nat 0 = 3" "(2 :: 32 word) + 1 + word_of_nat 4294967296 = 3"
    by simp_all
  show ?thesis unfolding ids a b c by simp
qed

text \<open>
  The first id of a session. \<open>NewDrawCtrler\<close> sets the counter to 2 ("start
  allocating new IDs at 2") and the field is described as "the next available ID", but
  \<open>AllocBuffer\<close> adds 1 before it takes the counter as the new id: whatever the
  arguments, the first call returns 3, and the id 2 is not issued. The amended claim
  says nothing about the first id.
\<close>

lemma AllocBuffer_first_id:
  "fst (AllocBuffer (NewDrawCtrler n iounit reads) refresh repl r clipr color) = 3"
  by (simp add: AllocBuffer_eq NewDrawCtrler_def)

section \<open>EventTranslator: the claim\<close>

lemma notify_pair:
  "\<not> (c1 \<and> c2) \<Longrightarrow>
   notify_if c2 e2 (notify_if c1 e1 st) =
     (fst st @ (if c1 then [e1] else if c2 then [e2] else []), snd st \<or> c1 \<or> c2)"
  by (cases st) (auto simp: notify_if_def)

lemma mouseRecord_translated:
  "mouseRecord prevmask x y buttons = (translated prevmask buttons x y, buttons)"
  unfolding mouseRecord_def Let_def
  apply (subst notify_pair, simp)+
  apply (simp add: translated_def transitions_def tracked_def transition_def
        MouseButtonLeft_def MouseButtonMiddle_def MouseButtonRight_def MouseScrollUp_def MouseScrollDown_def)
  done


text \<open>
  Claim C4. For every mouse movement record, the handler sends exactly the events of the
  translation: for the five tracked bits in the order left, middle, right, wheel-up,
  wheel-down, a press for each newly set bit and a release for each newly cleared bit,
  all with the record's coordinates, and one event without button when no tracked bit
  changed; then the stored mask is the new mask. The mask sequence 0, 1, 3, 0 gives
  left press, middle press, left release, middle release and no other event.
\<close>

theorem mouseRecord_events:
  "mouseRecord prevmask (x :: 'c) y buttons = (translated prevmask buttons x y, buttons) \<and>
   mouseRecords 0 [(x1 :: 'c, y1, 1), (x2, y2, 3), (x3, y3, 0)] =
     [Event x1 y1 ButtonLeft DirPress, Event x2 y2 ButtonMiddle DirPress,
      Event x3 y3 ButtonLeft DirRelease, Event x3 y3 ButtonMiddle DirRelease]"
  by (simp add: mouseRecord_translated) 
     (simp add: translated_def transitions_def tracked_def transition_def)

theorem mouseRecord_events_witness:
  "mouseRecord 3 (10 :: int) 20 5 =
     ([Event 10 20 ButtonMiddle DirRelease, Event 10 20 ButtonRight DirPress], 5) \<and>
   mouseRecord 5 (11 :: int) 21 5 = ([Event 11 21 ButtonNone DirNone], 5)"
  using mouseRecord_events[of 3 "10 :: int" 20 5 0 0 0 0 0 0]
    mouseRecord_events[of 5 "11 :: int" 21 5 0 0 0 0 0 0]
  by (simp add: translated_def transitions_def tracked_def transition_def)

section \<open>ProtocolClient: pixel transfer\<close>

lemma data_reads_sendMessage [simp]: "data_reads (sendMessage d c m) = data_reads d"
  by (simp add: sendMessage_def)

lemma data_written_sendMessage [simp]:
  "data_written (sendMessage d c m) = data_written d @ [c # m]"
  by (simp add: sendMessage_def)

lemma length_Read_into: "off \<le> length pixels \<Longrightarrow> length (Read_into pixels off res) = length pixels"
  by (auto simp: Read_into_def copy_at_def Let_def min_def)

lemma read_errors_fatal_none: "read_errors_fatal reads (Some (Returns p)) reads"
  unfolding read_errors_fatal_def by (intro exI[of _ 0]) simp

lemma read_errors_fatal_runtime: "read_errors_fatal reads (Some (Panics (RuntimeError s))) reads"
  unfolding read_errors_fatal_def by (intro exI[of _ 0]) simp

lemma read_errors_fatal_blocked: "read_errors_fatal reads None reads"
  unfolding read_errors_fatal_def by (intro exI[of _ 0]) simp

lemma read_errors_fatal_panic:
  "err res = Some e \<Longrightarrow> read_errors_fatal (res # rest) (Some (Panics (ErrorValue e))) rest"
  unfolding read_errors_fatal_def by (intro exI[of _ 1]) simp

lemma read_errors_fatal_step:
  assumes "err res = None" "read_errors_fatal rest out reads'"
  shows "read_errors_fatal (res # rest) out reads'"
proof -
  from assms(2) obtain n where n: "n \<le> length rest" "reads' = drop n rest"
    and a: "\<forall>j < n. \<forall>e. err (rest ! j) = Some e \<longrightarrow> Suc j = n \<and> out = Some (Panics (ErrorValue e))"
    and b: "\<forall>e. out = Some (Panics (ErrorValue e)) \<longrightarrow> 1 \<le> n \<and> err (rest ! (n - 1)) = Some e"
    unfolding read_errors_fatal_def by blast
  show ?thesis unfolding read_errors_fatal_def
  proof (intro exI[of _ "Suc n"] conjI allI impI)
    show "Suc n \<le> length (res # rest)" using n by simp
    show "reads' = drop (Suc n) (res # rest)" using n by simp
  next
    fix j e assume j: "j < Suc n" and e: "err ((res # rest) ! j) = Some e"
    then obtain j' where j': "j = Suc j'" using assms(1) by (cases j) auto
    with j e a show "Suc j = Suc n" "out = Some (Panics (ErrorValue e))" by auto
  next
    fix e assume "out = Some (Panics (ErrorValue e))"
    with b have n1: "1 \<le> n" and "err (rest ! (n - 1)) = Some e" by auto
    then show "1 \<le> Suc n" "err ((res # rest) ! (Suc n - 1)) = Some e"
      by (cases n; simp)+
  qed
qed

lemma ReadSubimage_loop_fatal:
  "read_errors_fatal (data_reads d) (fst (ReadSubimage_loop d r lineSize i msg pixels))
     (data_reads (snd (ReadSubimage_loop d r lineSize i msg pixels)))"
proof (induction d r lineSize i msg pixels rule: ReadSubimage_loop.induct)
  case (1 d r lineSize i msg pixels)
  define endline where "endline = (if int64 (i + lineSize) > Y (Max_pt r) then Y (Max_pt r) else int64 (i + lineSize))"
  define msg' where "msg' = PutUint32 (PutUint32 msg 8 (word_of_int i)) 16 (word_of_int endline)"
  define off where "off = int64 ((i - Y (Min_pt r)) * X (Size r) * 4)"
  define d1 where "d1 = sendMessage d 114 msg'"
  note unfold = ReadSubimage_loop.simps[of d r lineSize i msg pixels, unfolded Let_def,
      folded endline_def, folded msg'_def, folded off_def, folded d1_def]
  show ?case
  proof (cases "i < Y (Max_pt r)")
    case False
    then show ?thesis by (simp add: unfold read_errors_fatal_none)
  next
    case True
    show ?thesis
    proof (cases "off < 0 \<or> off > int (length pixels)")
      case oob: True
      then show ?thesis using True by (simp add: unfold d1_def read_errors_fatal_runtime)
    next
      case inb: False
      show ?thesis
      proof (cases "data_reads d")
        case Nil
        then show ?thesis using True inb by (simp add: unfold d1_def read_errors_fatal_blocked)
      next
        case (Cons res rest)
        show ?thesis
        proof (cases "err res")
          case (Some e)
          then show ?thesis using True inb Cons
            by (simp add: unfold d1_def read_errors_fatal_panic)
        next
          case None
          have "read_errors_fatal rest
             (fst (ReadSubimage_loop (d1\<lparr>data_reads := rest\<rparr>) r lineSize (int64 (i + lineSize)) msg'
                    (Read_into pixels (nat off) res)))
             (data_reads (snd (ReadSubimage_loop (d1\<lparr>data_reads := rest\<rparr>) r lineSize (int64 (i + lineSize)) msg'
                    (Read_into pixels (nat off) res))))"
            using "1.IH"[OF refl True refl refl refl refl refl refl _ _ refl refl None]
              inb Cons
            unfolding endline_def msg'_def off_def d1_def
            by simp
          then have "read_errors_fatal (res # rest)
             (fst (ReadSubimage_loop (d1\<lparr>data_reads := rest\<rparr>) r lineSize (int64 (i + lineSize)) msg'
                    (Read_into pixels (nat off) res)))
             (data_reads (snd (ReadSubimage_loop (d1\<lparr>data_reads := rest\<rparr>) r lineSize (int64 (i + lineSize)) msg'
                    (Read_into pixels (nat off) res))))"
            using None by (intro read_errors_fatal_step)
          then show ?thesis using True inb Cons None by (simp add: unfold d1_def)
        qed
      qed
    qed
  qed
qed


lemma ReadSubimage_fatal:
  "read_errors_fatal (data_reads d) (fst (ReadSubimage d src r))
     (data_reads (snd (ReadSubimage d src r)))"
proof -
  define sz where "sz = int64 (X (Size r) * Y (Size r) * 4)"
  define msg1 where "msg1 = PutUint32 (PutUint32 (PutUint32 (PutUint32 (PutUint32 (replicate 20 0)
      0 src) 4 (word_of_int (X (Min_pt r)))) 8 (word_of_int (Y (Min_pt r))))
      12 (word_of_int (X (Max_pt r)))) 16 (word_of_int (Y (Max_pt r)))"
  define msg2 where "msg2 = PutUint32 (PutUint32 (PutUint32 (replicate 20 0)
      0 src) 4 (word_of_int (X (Min_pt r)))) 12 (word_of_int (X (Max_pt r)))"
  note unfold = ReadSubimage_def[of d src r, unfolded Let_def, folded sz_def,
      folded msg1_def, folded msg2_def]
  show ?thesis
  proof (cases "sz < 0")
    case True
    then show ?thesis by (simp add: unfold read_errors_fatal_runtime)
  next
    case nonneg: False
    show ?thesis
    proof (cases "sz < iounitSize d")
      case True
      show ?thesis
      proof (cases "data_reads d")
        case Nil
        then show ?thesis using nonneg True by (simp add: unfold read_errors_fatal_blocked)
      next
        case (Cons res rest)
        show ?thesis
        proof (cases "err res")
          case None
          have "read_errors_fatal (res # rest)
                  (Some (Returns (Read_into (replicate (nat sz) 0) 0 res))) rest"
            using None read_errors_fatal_none by (intro read_errors_fatal_step)
          then show ?thesis using nonneg True Cons None by (simp add: unfold)
        next
          case (Some e)
          then show ?thesis using nonneg True Cons by (simp add: unfold read_errors_fatal_panic)
        qed
      qed
    next
      case False
      show ?thesis
      proof (cases "X (Size r) = 0")
        case True
        then show ?thesis using nonneg False by (simp add: unfold read_errors_fatal_runtime)
      next
        case nz: False
        then show ?thesis using nonneg False
          by (simp add: unfold ReadSubimage_loop_fatal)
      qed
    qed
  qed
qed

lemma ReadSubimage_loop_counts:
  assumes "map err (data_reads d) = map err (data_reads d')"
    and "data_written d = data_written d'" "length pixels = length pixels'"
  shows "outcome_shape (fst (ReadSubimage_loop d r lineSize i msg pixels)) =
         outcome_shape (fst (ReadSubimage_loop d' r lineSize i msg pixels')) \<and>
         data_written (snd (ReadSubimage_loop d r lineSize i msg pixels)) =
         data_written (snd (ReadSubimage_loop d' r lineSize i msg pixels')) \<and>
         length (data_reads (snd (ReadSubimage_loop d r lineSize i msg pixels))) =
         length (data_reads (snd (ReadSubimage_loop d' r lineSize i msg pixels')))"
  using assms
proof (induction d r lineSize i msg pixels arbitrary: d' pixels' rule: ReadSubimage_loop.induct)
  case (1 d r lineSize i msg pixels)
  define endline where "endline = (if int64 (i + lineSize) > Y (Max_pt r) then Y (Max_pt r) else int64 (i + lineSize))"
  define msg' where "msg' = PutUint32 (PutUint32 msg 8 (word_of_int i)) 16 (word_of_int endline)"
  define off where "off = int64 ((i - Y (Min_pt r)) * X (Size r) * 4)"
  define e1 where "e1 = sendMessage d 114 msg'"
  define e2 where "e2 = sendMessage d' 114 msg'"
  note unfold = ReadSubimage_loop.simps[of d r lineSize i msg pixels, unfolded Let_def,
      folded endline_def, folded msg'_def, folded off_def, folded e1_def]
  note unfold' = ReadSubimage_loop.simps[of d' r lineSize i msg pixels', unfolded Let_def,
      folded endline_def, folded msg'_def, folded off_def, folded e2_def]
  have len: "length (data_reads d) = length (data_reads d')"
    using "1.prems"(1) by (metis length_map)
  show ?case
  proof (cases "i < Y (Max_pt r)")
    case False
    then show ?thesis using "1.prems" len by (simp add: unfold unfold' outcome_shape_def)
  next
    case True
    show ?thesis
    proof (cases "off < 0 \<or> off > int (length pixels)")
      case oob: True
      then show ?thesis using True "1.prems" len
        by (simp add: unfold unfold' e1_def e2_def outcome_shape_def)
    next
      case inb: False
      show ?thesis
      proof (cases "data_reads d")
        case Nil
        then have "data_reads d' = []" using len by simp
        then show ?thesis using True inb Nil "1.prems"
          by (simp add: unfold unfold' e1_def e2_def outcome_shape_def)
      next
        case (Cons res1 rest1)
        then obtain res2 rest2 where c2: "data_reads d' = res2 # rest2"
          using len by (cases "data_reads d'") simp_all
        have errs: "err res1 = err res2" "map err rest1 = map err rest2"
          using "1.prems"(1) Cons c2 by simp_all
        have lr: "length rest1 = length rest2" using len Cons c2 by simp
        show ?thesis
        proof (cases "err res1")
          case (Some e)
          then show ?thesis using True inb Cons c2 errs lr "1.prems"
            by (simp add: unfold unfold' e1_def e2_def outcome_shape_def)
        next
          case None
          let ?p1 = "Read_into pixels (nat off) res1"
          let ?p2 = "Read_into pixels' (nat off) res2"
          have "nat off \<le> length pixels" "nat off \<le> length pixels'"
            using inb "1.prems"(3) by (simp_all add: nat_le_iff)
          then have lp: "length ?p1 = length ?p2"
            using "1.prems"(3) by (simp add: length_Read_into)
          have ih: "outcome_shape (fst (ReadSubimage_loop (e1\<lparr>data_reads := rest1\<rparr>) r lineSize (int64 (i + lineSize)) msg' ?p1)) =
         outcome_shape (fst (ReadSubimage_loop (e2\<lparr>data_reads := rest2\<rparr>) r lineSize (int64 (i + lineSize)) msg' ?p2)) \<and>
         data_written (snd (ReadSubimage_loop (e1\<lparr>data_reads := rest1\<rparr>) r lineSize (int64 (i + lineSize)) msg' ?p1)) =
         data_written (snd (ReadSubimage_loop (e2\<lparr>data_reads := rest2\<rparr>) r lineSize (int64 (i + lineSize)) msg' ?p2)) \<and>
         length (data_reads (snd (ReadSubimage_loop (e1\<lparr>data_reads := rest1\<rparr>) r lineSize (int64 (i + lineSize)) msg' ?p1))) =
         length (data_reads (snd (ReadSubimage_loop (e2\<lparr>data_reads := rest2\<rparr>) r lineSize (int64 (i + lineSize)) msg' ?p2)))"
            using "1.IH"[OF refl True refl refl refl refl refl refl _ _ refl refl None,
                where d' = "e2\<lparr>data_reads := rest2\<rparr>" and pixels' = ?p2]
              inb Cons errs(2) lp "1.prems"(2)
            unfolding endline_def msg'_def off_def e1_def e2_def
            by simp
          show ?thesis using True inb Cons c2 errs None "1.prems"(3) ih
            by (simp add: unfold unfold' e1_def e2_def)
        qed
      qed
    qed
  qed
qed

lemma ReadSubimage_counts:
  assumes "map err reads = map err (data_reads d)"
  shows "outcome_shape (fst (ReadSubimage (d\<lparr>data_reads := reads\<rparr>) src r)) =
         outcome_shape (fst (ReadSubimage d src r)) \<and>
         data_written (snd (ReadSubimage (d\<lparr>data_reads := reads\<rparr>) src r)) =
         data_written (snd (ReadSubimage d src r)) \<and>
         length (data_reads (snd (ReadSubimage (d\<lparr>data_reads := reads\<rparr>) src r))) =
         length (data_reads (snd (ReadSubimage d src r)))"
proof -
  define sz where "sz = int64 (X (Size r) * Y (Size r) * 4)"
  define msg1 where "msg1 = PutUint32 (PutUint32 (PutUint32 (PutUint32 (PutUint32 (replicate 20 0)
      0 src) 4 (word_of_int (X (Min_pt r)))) 8 (word_of_int (Y (Min_pt r))))
      12 (word_of_int (X (Max_pt r)))) 16 (word_of_int (Y (Max_pt r)))"
  define msg2 where "msg2 = PutUint32 (PutUint32 (PutUint32 (replicate 20 0)
      0 src) 4 (word_of_int (X (Min_pt r)))) 12 (word_of_int (X (Max_pt r)))"
  define d0 where "d0 = d\<lparr>data_reads := reads\<rparr>"
  note unfold = ReadSubimage_def[of d src r, unfolded Let_def, folded sz_def,
      folded msg1_def, folded msg2_def]
  note unfold0 = ReadSubimage_def[of d0 src r, unfolded Let_def, folded sz_def,
      folded msg1_def, folded msg2_def]
  have d0: "iounitSize d0 = iounitSize d" "data_written d0 = data_written d" "data_reads d0 = reads"
    by (simp_all add: d0_def)
  have len: "length reads = length (data_reads d)" using assms by (metis length_map)
  have ?thesis if "sz < 0"
    using that len unfolding d0_def[symmetric] by (simp add: unfold unfold0 d0 outcome_shape_def)
  moreover have ?thesis if nonneg: "\<not> sz < 0" and single: "sz < iounitSize d"
  proof (cases "data_reads d")
    case Nil
    then have "reads = []" using len by simp
    then show ?thesis using nonneg single Nil unfolding d0_def[symmetric]
      by (simp add: unfold unfold0 d0 outcome_shape_def)
  next
    case (Cons res rest)
    then obtain res0 rest0 where c0: "reads = res0 # rest0" using len by (cases reads) simp_all
    have errs: "err res0 = err res" "length rest0 = length rest"
      using assms Cons c0 len by simp_all
    have lp: "length (Read_into (replicate (nat sz) 0) 0 res0) = length (Read_into (replicate (nat sz) 0) 0 res)"
      by (simp add: length_Read_into)
    show ?thesis using nonneg single Cons c0 errs lp unfolding d0_def[symmetric]
      by (cases "err res") (simp_all add: unfold unfold0 d0 outcome_shape_def)
  qed
  moreover have ?thesis if nonneg: "\<not> sz < 0" and chunked: "\<not> sz < iounitSize d"
  proof (cases "X (Size r) = 0")
    case True
    then show ?thesis using nonneg chunked len unfolding d0_def[symmetric]
      by (simp add: unfold unfold0 d0 outcome_shape_def)
  next
    case False
    have "map err (data_reads d0) = map err (data_reads d)" using assms by (simp add: d0)
    from ReadSubimage_loop_counts[OF this d0(2) refl]
    show ?thesis using nonneg chunked False unfolding d0_def[symmetric]
      by (simp add: unfold unfold0 d0)
  qed
  ultimately show ?thesis by blast
qed


text \<open>
  Claim C6, as amended. During pixel read-back, on the single-message and on the chunked
  path, a read that returns an error is fatal: \<open>ReadSubimage\<close> panics with that error
  at once, the read is not retried and no further read follows; and it panics with an
  error value in no other case. The number of bytes a read returns is not examined: when
  the device answers the reads with other bytes, fewer or more, and with the same
  errors, the call sends the same messages, performs the same number of reads and ends
  in the same way (it returns a buffer of the same length, panics with the same value,
  or waits for ever). A read that returns fewer bytes than requested without an error
  is therefore accepted like a complete one.
\<close>

theorem ReadSubimage_read_errors:
  "read_errors_fatal (data_reads d) (fst (ReadSubimage d src r))
     (data_reads (snd (ReadSubimage d src r))) \<and>
   (map err reads = map err (data_reads d) \<longrightarrow>
      outcome_shape (fst (ReadSubimage (d\<lparr>data_reads := reads\<rparr>) src r)) =
      outcome_shape (fst (ReadSubimage d src r)) \<and>
      data_written (snd (ReadSubimage (d\<lparr>data_reads := reads\<rparr>) src r)) =
      data_written (snd (ReadSubimage d src r)) \<and>
      length (data_reads (snd (ReadSubimage (d\<lparr>data_reads := reads\<rparr>) src r))) =
      length (data_reads (snd (ReadSubimage d src r))))"
  using ReadSubimage_fatal ReadSubimage_counts by blast


theorem ReadSubimage_read_errors_witness:
  "fst (ReadSubimage (NewDrawCtrler 1 10 [ReadResult [1, 2, 3, 4, 5, 6, 7, 8] None,
                                          ReadResult [1, 2, 3] (Some ''i/o error''),
                                          ReadResult [9, 9, 9, 9, 9, 9, 9, 9] None]) 5
          \<lparr>Min_pt = ZP, Max_pt = \<lparr>X = 2, Y = 3\<rparr>\<rparr>) = Some (Panics (ErrorValue ''i/o error'')) \<and>
   read_errors_fatal [ReadResult [1, 2, 3, 4, 5, 6, 7, 8] None,
                      ReadResult [1, 2, 3] (Some ''i/o error''),
                      ReadResult [9, 9, 9, 9, 9, 9, 9, 9] None]
     (Some (Panics (ErrorValue ''i/o error''))) [ReadResult [9, 9, 9, 9, 9, 9, 9, 9] None] \<and>
   outcome_shape (fst (ReadSubimage (NewDrawCtrler 1 10 [ReadResult [] None,
                                          ReadResult [] (Some ''i/o error''),
                                          ReadResult [] None]) 5
          \<lparr>Min_pt = ZP, Max_pt = \<lparr>X = 2, Y = 3\<rparr>\<rparr>)) = Some (Panics (ErrorValue ''i/o error'')) \<and>
   outcome_shape (fst (ReadSubimage (NewDrawCtrler 1 10 [ReadResult [1, 2, 3, 4, 5, 6, 7, 8] None,
                                          ReadResult [1, 2, 3] None,
                                          ReadResult [9, 9, 9, 9, 9, 9, 9, 9] None]) 5
          \<lparr>Min_pt = ZP, Max_pt = \<lparr>X = 2, Y = 3\<rparr>\<rparr>)) = Some (Returns 24)"
proof -
  let ?full = "[ReadResult [1, 2, 3, 4, 5, 6, 7, 8] None,
                ReadResult [1, 2, 3, 4, 5, 6, 7, 8] None,
                ReadResult [9, 9, 9, 9, 9, 9, 9, 9] None]"
  let ?short = "[ReadResult [1, 2, 3, 4, 5, 6, 7, 8] None,
                 ReadResult [1, 2, 3] None,
                 ReadResult [9, 9, 9, 9, 9, 9, 9, 9] None]"
  let ?r = "\<lparr>Min_pt = ZP, Max_pt = \<lparr>X = 2, Y = 3\<rparr>\<rparr>"
  have full: "outcome_shape (fst (ReadSubimage (NewDrawCtrler 1 10 ?full) 5 ?r)) = Some (Returns 24)"
    by code_simp
  have "map err ?short = map err (data_reads (NewDrawCtrler 1 10 ?full))"
    by (simp add: NewDrawCtrler_def)
  moreover have "(NewDrawCtrler 1 10 ?full)\<lparr>data_reads := ?short\<rparr> = NewDrawCtrler 1 10 ?short"
    by (simp add: NewDrawCtrler_def)
  ultimately have short: "outcome_shape (fst (ReadSubimage (NewDrawCtrler 1 10 ?short) 5 ?r)) = Some (Returns 24)"
    using ReadSubimage_read_errors[of "NewDrawCtrler 1 10 ?full" 5 ?r ?short] full by simp
  let ?reads = "[ReadResult [1, 2, 3, 4, 5, 6, 7, 8] None,
                                          ReadResult [1, 2, 3] (Some ''i/o error''),
                                          ReadResult [9, 9, 9, 9, 9, 9, 9, 9] None]"
  let ?empties = "[ReadResult [] None, ReadResult [] (Some ''i/o error''), ReadResult [] None]"
  let ?d = "NewDrawCtrler 1 10 ?reads"
  let ?r = "\<lparr>Min_pt = ZP, Max_pt = \<lparr>X = 2, Y = 3\<rparr>\<rparr>"
  have a: "ReadSubimage ?d 5 ?r =
      (Some (Panics (ErrorValue ''i/o error'')),
       snd (ReadSubimage ?d 5 ?r))"
    by code_simp
  have b: "data_reads (snd (ReadSubimage ?d 5 ?r)) = [ReadResult [9, 9, 9, 9, 9, 9, 9, 9] None]"
    by code_simp
  have c: "data_reads ?d = ?reads"
    by (simp add: NewDrawCtrler_def)
  have e: "map err ?empties = map err (data_reads ?d)"
    by (simp add: NewDrawCtrler_def)
  have f: "?d\<lparr>data_reads := ?empties\<rparr> = NewDrawCtrler 1 10 ?empties"
    by (simp add: NewDrawCtrler_def)
  have g: "outcome_shape (Some (Panics (ErrorValue ''i/o error''))) = Some (Panics (ErrorValue ''i/o error''))"
    by (simp add: outcome_shape_def)
  from ReadSubimage_read_errors[of ?d 5 ?r ?empties] e
  have "fst (ReadSubimage ?d 5 ?r) = Some (Panics (ErrorValue ''i/o error'')) \<and>
        read_errors_fatal ?reads (Some (Panics (ErrorValue ''i/o error'')))
          [ReadResult [9, 9, 9, 9, 9, 9, 9, 9] None] \<and>
        outcome_shape (fst (ReadSubimage (NewDrawCtrler 1 10 ?empties) 5 ?r)) =
          Some (Panics (ErrorValue ''i/o error''))"
    unfolding b c f using a g by (metis fst_conv)
  with short show ?thesis by simp
qed

text \<open>
  The claim as stated makes the short read itself fatal. A read of 2 of the 4 bytes of a
  one-pixel rectangle, and a read of 3 of the 8 bytes of the second row of three, are
  both taken as they come.
\<close>

theorem ReadSubimage_short_read_counterexample:
  "fst (ReadSubimage (NewDrawCtrler 1 1000 [ReadResult [1, 2] None]) 5
          \<lparr>Min_pt = ZP, Max_pt = \<lparr>X = 1, Y = 1\<rparr>\<rparr>) = Some (Returns [1, 2, 0, 0]) \<and>
   fst (ReadSubimage (NewDrawCtrler 1 10 [ReadResult [1, 2, 3, 4, 5, 6, 7, 8] None,
                                          ReadResult [1, 2, 3] None,
                                          ReadResult [9, 9, 9, 9, 9, 9, 9, 9] None]) 5
          \<lparr>Min_pt = ZP, Max_pt = \<lparr>X = 2, Y = 3\<rparr>\<rparr>) =
     Some (Returns [1, 2, 3, 4, 5, 6, 7, 8, 1, 2, 3, 0, 0, 0, 0, 0, 9, 9, 9, 9, 9, 9, 9, 9])"
  by code_simp


lemma replicate_20: "replicate 20 (0::byte) = [0,0,0,0,0,0,0,0,0,0, 0,0,0,0,0,0,0,0,0,0]"
  by (simp add: numeral_eq_Suc)

lemma compressedMessage_eq:
  "89 # compressedMessage dstid r blockYStart i compressed =
     Y_message dstid (X (Min_pt r)) (Y (Min_pt r) + blockYStart) (X (Max_pt r))
       (Y (Min_pt r) + i) compressed"
  by (simp add: compressedMessage_def Let_def PutUint32_def copy_at_def le32_def Y_message_def
      replicate_add replicate_20 list_update_append int64_word)

text \<open>
  On the compressed path no message reaches the last row of the rectangle, whatever the
  pixels are.
\<close>

lemma rows_before_last_mono: "lo \<le> lo' \<Longrightarrow> rows_before_last dstid r lo' m \<Longrightarrow> rows_before_last dstid r lo m"
  unfolding rows_before_last_def by force

lemma compressedReplaceSubimage_loop_rows:
  assumes "compressedReplaceSubimage_loop d dstid r pixels i blockYStart compressed = Returns d'"
    and "blockYStart \<le> i"
  shows "\<exists>msgs. data_written d' = data_written d @ msgs \<and>
           (\<forall>m \<in> set msgs. rows_before_last dstid r blockYStart m)"
  using assms
proof (induction d dstid r pixels i blockYStart compressed rule: compressedReplaceSubimage_loop.induct)
  case (1 d dstid r pixels i blockYStart compressed)
  note unfold = compressedReplaceSubimage_loop.simps[of d dstid r pixels i blockYStart compressed,
      unfolded Let_def]
  show ?case
  proof (cases "i < Y (Size r)")
    case False
    then have "d' = d" using "1.prems"(1) by (simp add: unfold)
    then show ?thesis by simp
  next
    case True
    define rowStart where "rowStart = int64 (i * 4 * X (Size r))"
    from "1.prems"(1) True obtain linePixels where sl:
      "slice pixels rowStart (int64 (rowStart + X (Size r) * 4)) = Some linePixels"
      by (cases "slice pixels rowStart (int64 (rowStart + X (Size r) * 4))") (auto simp: unfold rowStart_def)
    from "1.prems"(1) True sl obtain compressedLine where cl: "compress linePixels = Some compressedLine"
      by (cases "compress linePixels") (auto simp: unfold rowStart_def)
    show ?thesis
    proof (cases "int (length compressed) + int (length compressedLine) \<ge> iounitSize d \<or> i = int64 (Y (Size r) - 1)")
      case flush: True
      define msg where "msg = compressedMessage dstid r blockYStart i compressed"
      define d1 where "d1 = sendMessage d 89 msg"
      have run: "compressedReplaceSubimage_loop d1 dstid r pixels (i + 1) i compressedLine = Returns d'"
        using "1.prems"(1) True sl cl flush by (simp add: unfold rowStart_def msg_def d1_def)
      have "\<exists>msgs. data_written d' = data_written d1 @ msgs \<and>
           (\<forall>m \<in> set msgs. rows_before_last dstid r i m)"
        using "1.IH"(1)[OF refl True refl sl[unfolded rowStart_def] cl flush refl refl] run
        unfolding msg_def d1_def by simp
      then obtain msgs where msgs: "data_written d' = data_written d1 @ msgs"
        "\<forall>m \<in> set msgs. rows_before_last dstid r i m" by blast
      have first: "rows_before_last dstid r blockYStart (89 # msg)"
        unfolding rows_before_last_def msg_def compressedMessage_eq
        using True "1.prems"(2) by (intro exI[of _ blockYStart] exI[of _ i] exI[of _ compressed]) simp
      have "data_written d' = data_written d @ ((89 # msg) # msgs)"
        using msgs(1) by (simp add: d1_def sendMessage_def)
      moreover have "\<forall>m \<in> set ((89 # msg) # msgs). rows_before_last dstid r blockYStart m"
        using first msgs(2) rows_before_last_mono[OF "1.prems"(2)] by auto
      ultimately show ?thesis by blast
    next
      case keep: False
      have run: "compressedReplaceSubimage_loop d dstid r pixels (i + 1) blockYStart
                   (compressed @ compressedLine) = Returns d'"
        using "1.prems"(1) True sl cl keep by (simp add: unfold rowStart_def)
      show ?thesis
        using "1.IH"(2)[OF refl True refl sl[unfolded rowStart_def] cl keep] run "1.prems"(2)
        by simp
    qed
  qed
qed

lemma compressedReplaceSubimage_rows:
  assumes "compressedReplaceSubimage d dstid r pixels = Returns d'"
  shows "\<exists>msgs. data_written d' = data_written d @ msgs \<and>
           (\<forall>m \<in> set msgs. rows_before_last dstid r 0 m)"
  using assms unfolding compressedReplaceSubimage_def
  by (rule compressedReplaceSubimage_loop_rows) simp

lemma length_zero_row_compressed: "length zero_row_compressed = 140"
  by (simp add: zero_row_compressed_def)

lemma compress_zero_row: "compress (replicate 200 0) = Some zero_row_compressed"
  unfolding zero_row_compressed_def by code_simp

lemma slice_zero:
  "0 \<le> lo \<Longrightarrow> lo \<le> hi \<Longrightarrow> hi \<le> int n \<Longrightarrow>
   slice (replicate n (0::byte)) lo hi = Some (replicate (nat (hi - lo)) 0)"
  by (auto simp: slice_def min_def)

lemma concat_replicate_7: "concat (replicate 7 xs) = xs @ xs @ xs @ xs @ xs @ xs @ xs"
  by (simp add: numeral_eq_Suc)

lemma compressedReplaceSubimage_zero_50:
  "compressedReplaceSubimage (NewDrawCtrler 1 1000 []) 1
      \<lparr>Min_pt = ZP, Max_pt = \<lparr>X = 50, Y = 50\<rparr>\<rparr> (replicate 10000 0) =
   Returns ((NewDrawCtrler 1 1000 [])\<lparr>data_written :=
     [89 # compressedMessage 1 \<lparr>Min_pt = ZP, Max_pt = \<lparr>X = 50, Y = 50\<rparr>\<rparr> 0 7 (concat (replicate 7 zero_row_compressed)),
      89 # compressedMessage 1 \<lparr>Min_pt = ZP, Max_pt = \<lparr>X = 50, Y = 50\<rparr>\<rparr> 7 14 (concat (replicate 7 zero_row_compressed)),
      89 # compressedMessage 1 \<lparr>Min_pt = ZP, Max_pt = \<lparr>X = 50, Y = 50\<rparr>\<rparr> 14 21 (concat (replicate 7 zero_row_compressed)),
      89 # compressedMessage 1 \<lparr>Min_pt = ZP, Max_pt = \<lparr>X = 50, Y = 50\<rparr>\<rparr> 21 28 (concat (replicate 7 zero_row_compressed)),
      89 # compressedMessage 1 \<lparr>Min_pt = ZP, Max_pt = \<lparr>X = 50, Y = 50\<rparr>\<rparr> 28 35 (concat (replicate 7 zero_row_compressed)),
      89 # compressedMessage 1 \<lparr>Min_pt = ZP, Max_pt = \<lparr>X = 50, Y = 50\<rparr>\<rparr> 35 42 (concat (replicate 7 zero_row_compressed)),
      89 # compressedMessage 1 \<lparr>Min_pt = ZP, Max_pt = \<lparr>X = 50, Y = 50\<rparr>\<rparr> 42 49 (concat (replicate 7 zero_row_compressed))]\<rparr>)"
  by (simp add: compressedReplaceSubimage_def compressedReplaceSubimage_loop.simps Let_def
      slice_zero Size_def ZP_def compress_zero_row sendMessage_def length_zero_row_compressed
      NewDrawCtrler_def concat_replicate_7 int64_def)

text \<open>
  Claim C1, evaluated where the code departs from it. With a transfer unit of 1000 bytes
  and an upload of 50 by 50 zero pixels (10000 bytes), \<open>ReplaceSubimage\<close> takes the
  compressed path and sends seven \<open>'Y'\<close> messages, each with seven compressed rows, for
  the rows 0 to 6, 7 to 13, and so on to 42 to 48. The last row, 49, is compressed and
  kept for the next message, and the loop ends without sending it: the rectangles of the
  messages do not cover the rectangle of the upload.
\<close>

theorem ReplaceSubimage_rows_sent:
  "ReplaceSubimage (NewDrawCtrler 1 1000 []) 1
      \<lparr>Min_pt = ZP, Max_pt = \<lparr>X = 50, Y = 50\<rparr>\<rparr> (replicate 10000 0) =
   Some (Returns ((NewDrawCtrler 1 1000 [])\<lparr>data_written :=
     [Y_message 1 0 0 50 7 (concat (replicate 7 zero_row_compressed)),
      Y_message 1 0 7 50 14 (concat (replicate 7 zero_row_compressed)),
      Y_message 1 0 14 50 21 (concat (replicate 7 zero_row_compressed)),
      Y_message 1 0 21 50 28 (concat (replicate 7 zero_row_compressed)),
      Y_message 1 0 28 50 35 (concat (replicate 7 zero_row_compressed)),
      Y_message 1 0 35 50 42 (concat (replicate 7 zero_row_compressed)),
      Y_message 1 0 42 50 49 (concat (replicate 7 zero_row_compressed))]\<rparr>))"
proof -
  have "ReplaceSubimage (NewDrawCtrler 1 1000 []) 1
      \<lparr>Min_pt = ZP, Max_pt = \<lparr>X = 50, Y = 50\<rparr>\<rparr> (replicate 10000 0) =
    Some (compressedReplaceSubimage (NewDrawCtrler 1 1000 []) 1
      \<lparr>Min_pt = ZP, Max_pt = \<lparr>X = 50, Y = 50\<rparr>\<rparr> (replicate 10000 0))"
    by (simp add: ReplaceSubimage_def NewDrawCtrler_def)
  then show ?thesis
    unfolding compressedReplaceSubimage_zero_50 compressedMessage_eq
    by (simp add: ZP_def)
qed

section \<open>BlitEngine: the claims\<close>

lemma bitlen_small:
  assumes "0 < a" "a < 2 ^ 53"
  shows "bitlen a \<le> 53"
proof (rule ccontr)
  assume "\<not> bitlen a \<le> 53"
  then have "53 \<le> nat (bitlen a - 1)" by simp
  then have "(2::int) ^ 53 \<le> 2 ^ nat (bitlen a - 1)" by (intro power_increasing) simp_all
  also have "\<dots> \<le> a" using bitlen_bounds[OF assms(1)] by simp
  finally show False using assms(2) by simp
qed

lemma round_f64_exact:
  assumes "\<bar>m\<bar> < 2 ^ 53"
  shows "round_f64 m 0 = Finite m 0"
proof (cases "m = 0")
  case True
  then show ?thesis by (simp add: round_f64_def)
next
  case False
  then have "0 < \<bar>m\<bar>" by simp
  from bitlen_small[OF this assms] have b: "bitlen \<bar>m\<bar> \<le> 53" .
  have "0 \<le> bitlen \<bar>m\<bar>" by (rule bitlen_nonneg)
  with b False show ?thesis by (simp add: round_f64_def Let_def max_def)
qed

lemma mapPoint_identity:
  assumes "\<bar>X p\<bar> < 2 ^ 53" "\<bar>Y p\<bar> < 2 ^ 53"
  shows "mapPoint conv identity_Aff3 p = p"
proof -
  have x: "f64_of_int (X p) = Finite (X p) 0" and y: "f64_of_int (Y p) = Finite (Y p) 0"
    using assms by (simp_all add: f64_of_int_def round_f64_exact)
  have z: "round_f64 0 0 = Finite 0 0" by (simp add: round_f64_def)
  have rx: "round_f64 (X p) 0 = Finite (X p) 0" and ry: "round_f64 (Y p) 0 = Finite (Y p) 0"
    using assms by (simp_all add: round_f64_exact)
  have ix: "f64_to_int conv (Finite (X p) 0) = X p" and iy: "f64_to_int conv (Finite (Y p) 0) = Y p"
    using assms by (auto simp: Let_def)
  show ?thesis
    by (simp add: mapPoint_def identity_Aff3_def f64_one_def f64_zero_def x y z rx ry ix iy Let_def
        del: f64_to_int.simps)
qed

lemma affineTransform_identity:
  assumes "X (Min_pt sr) \<le> X (Max_pt sr)" "Y (Min_pt sr) \<le> Y (Max_pt sr)"
    and "\<bar>X (Min_pt sr)\<bar> < 2 ^ 53" "\<bar>Y (Min_pt sr)\<bar> < 2 ^ 53"
    and "\<bar>X (Max_pt sr)\<bar> < 2 ^ 53" "\<bar>Y (Max_pt sr)\<bar> < 2 ^ 53"
  shows "affineTransform conv identity_Aff3 sr = sr"
proof -
  have "mapPoint conv identity_Aff3 (Min_pt sr) = Min_pt sr"
    "mapPoint conv identity_Aff3 \<lparr>X = X (Max_pt sr), Y = Y (Min_pt sr)\<rparr> = \<lparr>X = X (Max_pt sr), Y = Y (Min_pt sr)\<rparr>"
    "mapPoint conv identity_Aff3 \<lparr>X = X (Min_pt sr), Y = Y (Max_pt sr)\<rparr> = \<lparr>X = X (Min_pt sr), Y = Y (Max_pt sr)\<rparr>"
    "mapPoint conv identity_Aff3 \<lparr>X = X (Max_pt sr), Y = Y (Max_pt sr)\<rparr> = \<lparr>X = X (Max_pt sr), Y = Y (Max_pt sr)\<rparr>"
    using assms by (simp_all add: mapPoint_identity)
  then show ?thesis using assms(1,2)
    by (simp add: affineTransform_def updateMinMax_def Let_def)
qed

lemma replicate_44: "replicate 44 (0::byte) = [0,0,0,0,0,0,0,0,0,0, 0,0,0,0,0,0,0,0,0,0, 0,0,0,0,0,0,0,0,0,0, 0,0,0,0,0,0,0,0,0,0, 0,0,0,0]"
  by (simp add: numeral_eq_Suc)

lemma Draw_messages:
  "Draw d dstid srcid maskid r srcp maskp op =
     d\<lparr>data_written := data_written d @
        [[79, if op = Src then 10 else 11],
         100 # le32 dstid @ le32 srcid @ le32 maskid @ rect_bytes r @
               le32 (word_of_int (X srcp)) @ le32 (word_of_int (Y srcp)) @
               le32 (word_of_int (X maskp)) @ le32 (word_of_int (Y maskp))]\<rparr>"
  by (simp add: Draw_def setOp_def sendMessage_def PutUint32_def le32_def rect_bytes_def Let_def
      replicate_44)

lemma windowImpl_Draw_fast:
  assumes "f64_eq m0 f64_one" "f64_eq m1 f64_zero" "f64_eq m3 f64_zero" "f64_eq m4 f64_one"
  shows "windowImpl_Draw conv transform d w_imageId (m0, m1, m2, m3, m4, m5) srcT_imageId sr op =
     Some (Returns (Draw d w_imageId srcT_imageId srcT_imageId
        \<lparr>Min_pt = \<lparr>X = f64_to_int conv m2, Y = f64_to_int conv m5\<rparr>,
         Max_pt = \<lparr>X = int64 (f64_to_int conv m2 + int64 (X (Max_pt sr) - X (Min_pt sr))),
                   Y = int64 (f64_to_int conv m5 + int64 (Y (Max_pt sr) - Y (Min_pt sr)))\<rparr>\<rparr>
        (Min_pt sr) ZP op))"
  using assms by (simp add: windowImpl_Draw_def Let_def Size_def)


text \<open>
  Claim C7, evaluated where the code departs from it. With the identity matrix (no
  translation) and the source rectangle from (10, 10) to (20, 20), \<open>windowImpl.Draw\<close>
  takes the fast path and sends the set-op message and one composite with the texture
  id 7 as source and as mask, and nothing else; but the destination rectangle of the
  composite is (0, 0) to (10, 10), the truncated translation with the size of the
  source rectangle, and not the source rectangle translated, (10, 10) to (20, 20).
\<close>

theorem Draw_fast_path_destination:
  "windowImpl_Draw conv transform (NewDrawCtrler 1 1000 []) 2 identity_Aff3 7
      \<lparr>Min_pt = \<lparr>X = 10, Y = 10\<rparr>, Max_pt = \<lparr>X = 20, Y = 20\<rparr>\<rparr> Src =
   Some (Returns ((NewDrawCtrler 1 1000 [])\<lparr>data_written :=
     [[79, 10],
      100 # le32 2 @ le32 7 @ le32 7 @
            rect_bytes \<lparr>Min_pt = \<lparr>X = 0, Y = 0\<rparr>, Max_pt = \<lparr>X = 10, Y = 10\<rparr>\<rparr> @
            le32 10 @ le32 10 @ le32 0 @ le32 0]\<rparr>))"
proof -
  have "windowImpl_Draw conv transform (NewDrawCtrler 1 1000 []) 2 identity_Aff3 7
      \<lparr>Min_pt = \<lparr>X = 10, Y = 10\<rparr>, Max_pt = \<lparr>X = 20, Y = 20\<rparr>\<rparr> Src =
     Some (Returns (Draw (NewDrawCtrler 1 1000 []) 2 7 7
        \<lparr>Min_pt = \<lparr>X = 0, Y = 0\<rparr>, Max_pt = \<lparr>X = 10, Y = 10\<rparr>\<rparr> \<lparr>X = 10, Y = 10\<rparr> ZP Src))"
    unfolding identity_Aff3_def
    by (subst windowImpl_Draw_fast) (simp_all add: f64_one_def f64_zero_def Let_def int64_def)
  then show ?thesis
    by (simp add: Draw_messages NewDrawCtrler_def ZP_def)
qed


text \<open>
  Claim C8, as amended. For every well-formed rectangle (minimum not above maximum in
  both coordinates) whose coordinates are below \<open>2^53\<close> in magnitude, \<open>affineTransform\<close>
  with the identity matrix returns the rectangle unchanged.
\<close>

theorem affineTransform_identity_wf:
  assumes "X (Min_pt sr) \<le> X (Max_pt sr)" "Y (Min_pt sr) \<le> Y (Max_pt sr)"
    and "\<bar>X (Min_pt sr)\<bar> < 2 ^ 53" "\<bar>Y (Min_pt sr)\<bar> < 2 ^ 53"
    and "\<bar>X (Max_pt sr)\<bar> < 2 ^ 53" "\<bar>Y (Max_pt sr)\<bar> < 2 ^ 53"
  shows "affineTransform conv identity_Aff3 sr = sr"
  using assms by (rule affineTransform_identity)


theorem affineTransform_identity_wf_witness:
  "affineTransform (\<lambda>f. - (2 ^ 63)) identity_Aff3
     \<lparr>Min_pt = \<lparr>X = - 7, Y = 3\<rparr>, Max_pt = \<lparr>X = 12, Y = 100\<rparr>\<rparr> =
   \<lparr>Min_pt = \<lparr>X = - 7, Y = 3\<rparr>, Max_pt = \<lparr>X = 12, Y = 100\<rparr>\<rparr>"
  by (rule affineTransform_identity_wf) simp_all


text \<open>
  The claim as stated is for every rectangle. A rectangle whose minimum lies above its
  maximum comes back with the corners exchanged, and a coordinate that is not a
  \<open>float64\<close>, such as \<open>2^53 + 1\<close>, comes back rounded.
\<close>

theorem affineTransform_identity_counterexample:
  "affineTransform (\<lambda>f. - (2 ^ 63)) identity_Aff3
     \<lparr>Min_pt = \<lparr>X = 5, Y = 5\<rparr>, Max_pt = \<lparr>X = 0, Y = 0\<rparr>\<rparr> =
   \<lparr>Min_pt = \<lparr>X = 0, Y = 0\<rparr>, Max_pt = \<lparr>X = 5, Y = 5\<rparr>\<rparr> \<and>
   affineTransform (\<lambda>f. - (2 ^ 63)) identity_Aff3
     \<lparr>Min_pt = \<lparr>X = 0, Y = 0\<rparr>, Max_pt = \<lparr>X = 9007199254740993, Y = 1\<rparr>\<rparr> =
   \<lparr>Min_pt = \<lparr>X = 0, Y = 0\<rparr>, Max_pt = \<lparr>X = 9007199254740992, Y = 1\<rparr>\<rparr>"
  by code_simp

end
